theory Spec2Isabelle
  imports Main "HOL-Library.AList"
begin

section \<open>observer.h: the observer base class\<close>

text \<open>
  \<^verbatim>\<open>template <class target_t> class observer\<close> has three data members, each with a
  default member initialiser: \<^verbatim>\<open>target_t* _target = nullptr\<close>,
  \<^verbatim>\<open>std::string _name = ""\<close> and \<^verbatim>\<open>bool _enabled = true\<close>. The pointer is an
  optional address of type \<open>'a\<close>, \<open>None\<close> being \<^verbatim>\<open>nullptr\<close>; a member \<^verbatim>\<open>_x\<close> is the field
  \<open>m_x\<close>.
\<close>

record 'a observer =
  m_target :: "'a option"
  m_name :: string
  m_enabled :: bool

text \<open>The constructor \<^verbatim>\<open>observer() noexcept { }\<close>: every member takes its initialiser.\<close>

definition new_observer :: "'a observer" where
  "new_observer = \<lparr>m_target = None, m_name = [], m_enabled = True\<rparr>"

definition get_target :: "'a observer \<Rightarrow> 'a option" where
  "get_target this = m_target this"

definition set_target :: "'a option \<Rightarrow> 'a observer \<Rightarrow> 'a observer" where
  "set_target t this = this\<lparr>m_target := t\<rparr>"

definition getName :: "'a observer \<Rightarrow> string" where
  "getName this = m_name this"

definition setName :: "string \<Rightarrow> 'a observer \<Rightarrow> 'a observer" where
  "setName n this = this\<lparr>m_name := n\<rparr>"

definition enable :: "'a observer \<Rightarrow> 'a observer" where
  "enable this = this\<lparr>m_enabled := True\<rparr>"

definition disable :: "'a observer \<Rightarrow> 'a observer" where
  "disable this = this\<lparr>m_enabled := False\<rparr>"

definition isEnabled :: "'a observer \<Rightarrow> bool" where
  "isEnabled this = m_enabled this"

text \<open>
  The four member functions that write to an observer, as one datatype, so that a history
  of calls on one observer is a list.
\<close>

datatype 'a member_call = Set_target "'a option" | SetName string | Enable | Disable

fun call_method :: "'a member_call \<Rightarrow> 'a observer \<Rightarrow> 'a observer" where
  "call_method (Set_target t) this = set_target t this"
| "call_method (SetName n) this = setName n this"
| "call_method Enable this = enable this"
| "call_method Disable this = disable this"

definition call_methods :: "'a member_call list \<Rightarrow> 'a observer \<Rightarrow> 'a observer" where
  "call_methods ms this = fold call_method ms this"

fun is_set_target :: "'a member_call \<Rightarrow> bool" where
  "is_set_target (Set_target t) = True"
| "is_set_target m = False"

fun is_setName :: "'a member_call \<Rightarrow> bool" where
  "is_setName (SetName n) = True"
| "is_setName m = False"

section \<open>observer.h: the node observer interface\<close>

text \<open>
  \<^verbatim>\<open>node_observer<node_t, edge_t>\<close> adds no data to \<^verbatim>\<open>observer<node_t>\<close>, only
  virtual member functions. The class overloads two names on arity: the three-argument
  \<^verbatim>\<open>on_in_node_removed(target, weakInNode, edge)\<close> and the one-argument
  \<^verbatim>\<open>on_in_node_removed(target)\<close>, and likewise for \<^verbatim>\<open>on_out_node_removed\<close>; the
  one-argument overloads carry the suffix \<open>1\<close> here.
\<close>

datatype hook =
    On_in_node_inserted
  | On_in_node_removed
  | On_in_node_removed1
  | On_out_node_inserted
  | On_out_node_removed
  | On_out_node_removed1

text \<open>The virtual member functions of the class, in the order of their declaration.\<close>

definition node_observer_hooks :: "hook list" where
  "node_observer_hooks =
     [On_in_node_inserted, On_in_node_removed, On_in_node_removed1,
      On_out_node_inserted, On_out_node_removed, On_out_node_removed1]"

text \<open>
  A call of a hook with its arguments: \<open>'n\<close> is a reference to a node
  (\<^verbatim>\<open>node_t&\<close>), \<open>'e\<close> a reference to an edge (\<^verbatim>\<open>const edge_t&\<close>).
\<close>

datatype ('n, 'e) call =
    In_node_inserted 'n 'n 'e
  | In_node_removed 'n 'n 'e
  | In_node_removed1 'n
  | Out_node_inserted 'n 'n 'e
  | Out_node_removed 'n 'n 'e
  | Out_node_removed1 'n

fun hook_of :: "('n, 'e) call \<Rightarrow> hook" where
  "hook_of (In_node_inserted target weakInNode edge) = On_in_node_inserted"
| "hook_of (In_node_removed target weakInNode edge) = On_in_node_removed"
| "hook_of (In_node_removed1 target) = On_in_node_removed1"
| "hook_of (Out_node_inserted target weakOutNode edge) = On_out_node_inserted"
| "hook_of (Out_node_removed target weakOutNode edge) = On_out_node_removed"
| "hook_of (Out_node_removed1 target) = On_out_node_removed1"

text \<open>Whether the hook's signature has the peer node and the edge, or the target only.\<close>

fun has_edge_context :: "hook \<Rightarrow> bool" where
  "has_edge_context On_in_node_inserted = True"
| "has_edge_context On_in_node_removed = True"
| "has_edge_context On_in_node_removed1 = False"
| "has_edge_context On_out_node_inserted = True"
| "has_edge_context On_out_node_removed = True"
| "has_edge_context On_out_node_removed1 = False"

text \<open>
  A hook is a \<^verbatim>\<open>void\<close> member function that receives references: what it can change is
  the observer it is called on and the objects behind the references. The state a hook
  acts on is therefore the pair of the observer (\<^verbatim>\<open>*this\<close>) and the store \<open>'w\<close> that
  holds the nodes and edges. Each body of the base class only evaluates
  \<^verbatim>\<open>static_cast<void>(...)\<close> on its arguments and returns.
\<close>

definition on_in_node_inserted ::
  "'n \<Rightarrow> 'n \<Rightarrow> 'e \<Rightarrow> 'a observer \<times> 'w \<Rightarrow> 'a observer \<times> 'w" where
  "on_in_node_inserted target weakInNode edge s = s"

definition on_in_node_removed ::
  "'n \<Rightarrow> 'n \<Rightarrow> 'e \<Rightarrow> 'a observer \<times> 'w \<Rightarrow> 'a observer \<times> 'w" where
  "on_in_node_removed target weakInNode edge s = s"

definition on_in_node_removed1 :: "'n \<Rightarrow> 'a observer \<times> 'w \<Rightarrow> 'a observer \<times> 'w" where
  "on_in_node_removed1 target s = s"

definition on_out_node_inserted ::
  "'n \<Rightarrow> 'n \<Rightarrow> 'e \<Rightarrow> 'a observer \<times> 'w \<Rightarrow> 'a observer \<times> 'w" where
  "on_out_node_inserted target weakOutNode edge s = s"

definition on_out_node_removed ::
  "'n \<Rightarrow> 'n \<Rightarrow> 'e \<Rightarrow> 'a observer \<times> 'w \<Rightarrow> 'a observer \<times> 'w" where
  "on_out_node_removed target weakOutNode edge s = s"

definition on_out_node_removed1 :: "'n \<Rightarrow> 'a observer \<times> 'w \<Rightarrow> 'a observer \<times> 'w" where
  "on_out_node_removed1 target s = s"

text \<open>The body of the base class that a call reaches when the hook is not overridden.\<close>

fun base_body :: "('n, 'e) call \<Rightarrow> 'a observer \<times> 'w \<Rightarrow> 'a observer \<times> 'w" where
  "base_body (In_node_inserted target weakInNode edge) = on_in_node_inserted target weakInNode edge"
| "base_body (In_node_removed target weakInNode edge) = on_in_node_removed target weakInNode edge"
| "base_body (In_node_removed1 target) = on_in_node_removed1 target"
| "base_body (Out_node_inserted target weakOutNode edge) = on_out_node_inserted target weakOutNode edge"
| "base_body (Out_node_removed target weakOutNode edge) = on_out_node_removed target weakOutNode edge"
| "base_body (Out_node_removed1 target) = on_out_node_removed1 target"

text \<open>
  Virtual dispatch: a concrete observer class gives a body for the hooks it overrides and
  none for the others; a call runs the override when there is one, the base body otherwise.
\<close>

type_synonym ('n, 'e, 'a, 'w) overrides =
  "hook \<Rightarrow> (('n, 'e) call \<Rightarrow> 'a observer \<times> 'w \<Rightarrow> 'a observer \<times> 'w) option"

definition dispatch ::
  "('n, 'e, 'a, 'w) overrides \<Rightarrow> ('n, 'e) call \<Rightarrow> 'a observer \<times> 'w \<Rightarrow> 'a observer \<times> 'w" where
  "dispatch ov c s = (case ov (hook_of c) of None \<Rightarrow> base_body c s | Some body \<Rightarrow> body c s)"

text \<open>
  An example of a concrete observer class: it overrides \<^verbatim>\<open>on_in_node_inserted\<close> only,
  to count the in-edges it has seen in a store that is one counter.
\<close>

definition counting_overrides :: "(nat, nat, nat, nat) overrides" where
  "counting_overrides h =
     (if h = On_in_node_inserted then Some (\<lambda>c (this, w). (this, Suc w)) else None)"

section \<open>The graph container and the observable node\<close>

text \<open>
  \<^verbatim>\<open>observer.h\<close> includes \<^verbatim>\<open>./observable.h\<close> and names \<^verbatim>\<open>gtpo::observable_node\<close> as a
  friend, and \<^verbatim>\<open>qanGroup.h\<close> derives from \<^verbatim>\<open>gtpo::GenGroup\<close>; neither the observable node
  nor the graph container that owns nodes, edges and groups is among the source files.
  This section models them from the specification's sections 3, 4 and 7. Entities are
  referred to by handles drawn from one counter, the container's tables are association
  lists in insertion order, and a callback that fires is recorded in a trace.
\<close>

text \<open>
  Modelled from the spec: the references of section 6 and of the glossary (a stable
  identifier used to look up an entity inside its owning container; no handle type is in
  the sources), as natural numbers.
\<close>

type_synonym node_ref = nat
type_synonym edge_ref = nat
type_synonym group_ref = nat
type_synonym observer_ref = nat

text \<open>Modelled from the spec: the error kinds of section 7; no error type is in the sources.\<close>

datatype error = NotFoundError | InvalidEndpointError | DuplicateAttachmentError

text \<open>
  Modelled from the spec: the Node of section 3 (the node class is not in the sources): the
  ordered in-edges and out-edges, the optional back-reference to a group, and the ordered
  sequence of attached observers.
\<close>

record node =
  in_edges :: "edge_ref list"
  out_edges :: "edge_ref list"
  group :: "group_ref option"
  observers :: "observer_ref list"

text \<open>
  Modelled from the spec: the Edge of section 3 (the edge class is not in the sources):
  one source and one destination node reference.
\<close>

record edge =
  source :: node_ref
  destination :: node_ref

text \<open>
  Modelled from the spec: one callback invocation (the observable node's fan-out is not in
  the sources): the observer called, the hook with its arguments, and the node table as it
  is at the moment of the call, which is what the observer can inspect.
\<close>

record delivery =
  receiver :: observer_ref
  notification :: "(node_ref, edge_ref) call"
  seen :: "(node_ref \<times> node) list"

text \<open>
  Modelled from the spec: the Graph container of sections 2 and 3 (not in the sources). It
  owns the nodes, the edges and the groups (a group is its member nodes); observers live
  in a store of their own, since a node holds its observers without owning their
  lifetime; \<open>trace\<close> is the sequence of callbacks fired so far.
\<close>

record graph =
  nodes :: "(node_ref \<times> node) list"
  edges :: "(edge_ref \<times> edge) list"
  groups :: "(group_ref \<times> node_ref list) list"
  observer_store :: "(observer_ref \<times> node_ref observer) list"
  next_ref :: nat
  trace :: "delivery list"

text \<open>Modelled from the spec: the container before any operation (not in the sources).\<close>

definition empty_graph :: graph where
  "empty_graph =
     \<lparr>nodes = [], edges = [], groups = [], observer_store = [], next_ref = 0, trace = []\<rparr>"

text \<open>
  Modelled from the spec: the query API of section 6 (not in the sources), here the member
  nodes of the container in insertion order.
\<close>

definition node_refs :: "graph \<Rightarrow> node_ref list" where
  "node_refs g = map fst (nodes g)"

text \<open>
  Modelled from the spec: the query API of section 6 (not in the sources): the member edges
  of the container.
\<close>

definition edge_refs :: "graph \<Rightarrow> edge_ref list" where
  "edge_refs g = map fst (edges g)"

text \<open>
  Modelled from the spec: the query API of section 6 (not in the sources): a node's
  in-edges; a reference that is not a member has none.
\<close>

definition in_list :: "graph \<Rightarrow> node_ref \<Rightarrow> edge_ref list" where
  "in_list g n = (case map_of (nodes g) n of None \<Rightarrow> [] | Some nd \<Rightarrow> in_edges nd)"

text \<open>
  Modelled from the spec: the query API of section 6 (not in the sources): a node's
  out-edges; a reference that is not a member has none.
\<close>

definition out_list :: "graph \<Rightarrow> node_ref \<Rightarrow> edge_ref list" where
  "out_list g n = (case map_of (nodes g) n of None \<Rightarrow> [] | Some nd \<Rightarrow> out_edges nd)"

text \<open>
  Modelled from the spec: the query API of section 6 (not in the sources): the group a
  node belongs to, if any.
\<close>

definition group_of :: "graph \<Rightarrow> node_ref \<Rightarrow> group_ref option" where
  "group_of g n = (case map_of (nodes g) n of None \<Rightarrow> None | Some nd \<Rightarrow> group nd)"

text \<open>
  Modelled from the spec: the observer collection of a node (section 4.2; not in the
  sources), in attachment order.
\<close>

definition observer_list :: "graph \<Rightarrow> node_ref \<Rightarrow> observer_ref list" where
  "observer_list g n = (case map_of (nodes g) n of None \<Rightarrow> [] | Some nd \<Rightarrow> observers nd)"

text \<open>
  Modelled from the spec: the source node of a member edge (section 3; not in the
  sources).
\<close>

definition edge_source :: "graph \<Rightarrow> edge_ref \<Rightarrow> node_ref option" where
  "edge_source g e = map_option source (map_of (edges g) e)"

text \<open>
  Modelled from the spec: the destination node of a member edge (section 3; not in the
  sources).
\<close>

definition edge_destination :: "graph \<Rightarrow> edge_ref \<Rightarrow> node_ref option" where
  "edge_destination g e = map_option destination (map_of (edges g) e)"

text \<open>
  Modelled from the spec: the member nodes of a group (section 3; not in the sources).
\<close>

definition members_of :: "graph \<Rightarrow> group_ref \<Rightarrow> node_ref list" where
  "members_of g grp = (case map_of (groups g) grp of None \<Rightarrow> [] | Some ms \<Rightarrow> ms)"

text \<open>
  Modelled from the spec: \<^verbatim>\<open>is_enabled\<close> on an observer handle (section 6; the handle
  store is not in the sources), read with \<^verbatim>\<open>isEnabled()\<close> of \<^verbatim>\<open>observer.h\<close>.
\<close>

definition observer_enabled :: "graph \<Rightarrow> observer_ref \<Rightarrow> bool" where
  "observer_enabled g ob =
     (case map_of (observer_store g) ob of None \<Rightarrow> False | Some this \<Rightarrow> isEnabled this)"

text \<open>
  Modelled from the spec: the observers a fan-out reaches (section 4.2;
  \<^verbatim>\<open>observable.h\<close> is not in the sources): the node's observers in attachment order,
  only those whose \<^verbatim>\<open>isEnabled()\<close> is true.
\<close>

definition enabled_observers :: "graph \<Rightarrow> node_ref \<Rightarrow> observer_ref list" where
  "enabled_observers g n = filter (observer_enabled g) (observer_list g n)"

text \<open>
  Modelled from the spec: the invocation of one callback on one observer (section 4.2;
  \<^verbatim>\<open>observable.h\<close> is not in the sources), as the entry it leaves in the trace.
\<close>

definition deliver :: "(node_ref, edge_ref) call \<Rightarrow> (node_ref \<times> node) list \<Rightarrow> observer_ref \<Rightarrow> delivery" where
  "deliver c ns ob = \<lparr>receiver = ob, notification = c, seen = ns\<rparr>"

text \<open>
  Modelled from the spec: the fan-out of the observable-node mixin (section 4.2;
  \<^verbatim>\<open>observable.h\<close> is not in the sources): the matching callback is invoked on each
  enabled observer of the node, in attachment order; disabled observers are skipped and
  nothing is queued for them.
\<close>

definition fan_out :: "node_ref \<Rightarrow> (node_ref, edge_ref) call \<Rightarrow> graph \<Rightarrow> graph" where
  "fan_out n c g = g\<lparr>trace := trace g @ map (deliver c (nodes g)) (enabled_observers g n)\<rparr>"

text \<open>
  Modelled from the spec: \<^verbatim>\<open>insert_node() -> NodeRef\<close> of section 4.1 (not in the
  sources): a new node with empty adjacency and observer set; it always succeeds.
\<close>

definition insert_node :: "graph \<Rightarrow> node_ref \<times> graph" where
  "insert_node g =
     (next_ref g,
      g\<lparr>nodes := nodes g @ [(next_ref g, \<lparr>in_edges = [], out_edges = [], group = None, observers = []\<rparr>)],
        next_ref := Suc (next_ref g)\<rparr>)"

text \<open>
  Modelled from the spec: the first append of \<^verbatim>\<open>insert_edge\<close> (section 4.1; not in the
  sources): the edge joins the end of the out-list of its source.
\<close>

definition add_out_edge :: "edge_ref \<Rightarrow> node_ref \<Rightarrow> graph \<Rightarrow> graph" where
  "add_out_edge e n g =
     g\<lparr>nodes := AList.map_entry n (\<lambda>nd. nd\<lparr>out_edges := out_edges nd @ [e]\<rparr>) (nodes g)\<rparr>"

text \<open>
  Modelled from the spec: the second append of \<^verbatim>\<open>insert_edge\<close> (section 4.1; not in the
  sources): the edge joins the end of the in-list of its destination.
\<close>

definition add_in_edge :: "edge_ref \<Rightarrow> node_ref \<Rightarrow> graph \<Rightarrow> graph" where
  "add_in_edge e n g =
     g\<lparr>nodes := AList.map_entry n (\<lambda>nd. nd\<lparr>in_edges := in_edges nd @ [e]\<rparr>) (nodes g)\<rparr>"

text \<open>
  Modelled from the spec: the creation of an edge by \<^verbatim>\<open>insert_edge\<close> (section 4.1; not in
  the sources): a new edge from \<open>src\<close> to \<open>dst\<close> becomes a member of the container.
\<close>

definition create_edge :: "node_ref \<Rightarrow> node_ref \<Rightarrow> graph \<Rightarrow> edge_ref \<times> graph" where
  "create_edge src dst g =
     (next_ref g,
      g\<lparr>edges := edges g @ [(next_ref g, \<lparr>source = src, destination = dst\<rparr>)],
        next_ref := Suc (next_ref g)\<rparr>)"

text \<open>
  Modelled from the spec: \<^verbatim>\<open>insert_edge(src, dst) -> EdgeRef\<close> of section 4.1 (not in the
  sources): \<^verbatim>\<open>InvalidEndpointError\<close> if an endpoint is not a member; otherwise the edge is
  created, appended to both adjacency lists, and then the source's observers are notified
  before the destination's.
\<close>

definition insert_edge :: "node_ref \<Rightarrow> node_ref \<Rightarrow> graph \<Rightarrow> error + edge_ref \<times> graph" where
  "insert_edge src dst g =
     (if src \<notin> set (node_refs g) \<or> dst \<notin> set (node_refs g) then Inl InvalidEndpointError
      else
        let (e, g1) = create_edge src dst g;
            g2 = add_in_edge e dst (add_out_edge e src g1);
            g3 = fan_out src (Out_node_inserted src dst e) g2;
            g4 = fan_out dst (In_node_inserted dst src e) g3
        in Inr (e, g4))"

text \<open>
  Modelled from the spec: the detachment step of \<^verbatim>\<open>remove_edge\<close> (section 4.1; not in the
  sources): the edge leaves the out-list of its source and the in-list of its destination.
\<close>

definition detach_edge :: "edge_ref \<Rightarrow> node_ref \<Rightarrow> node_ref \<Rightarrow> graph \<Rightarrow> graph" where
  "detach_edge e src dst g =
     g\<lparr>nodes :=
         AList.map_entry dst (\<lambda>nd. nd\<lparr>in_edges := removeAll e (in_edges nd)\<rparr>)
           (AList.map_entry src (\<lambda>nd. nd\<lparr>out_edges := removeAll e (out_edges nd)\<rparr>) (nodes g))\<rparr>"

text \<open>
  Modelled from the spec: the end of an edge's membership (section 4.1; not in the
  sources): after \<^verbatim>\<open>remove_edge\<close> the edge reference is absent from the container.
\<close>

definition destroy_edge :: "edge_ref \<Rightarrow> graph \<Rightarrow> graph" where
  "destroy_edge e g = g\<lparr>edges := AList.delete e (edges g)\<rparr>"

text \<open>
  Modelled from the spec: \<^verbatim>\<open>remove_edge(EdgeRef)\<close> of section 4.1 (not in the sources):
  \<^verbatim>\<open>NotFoundError\<close> if the edge is absent; otherwise the two edge-context callbacks, the
  detachment, the two no-context callbacks, and the end of the edge's membership.
\<close>

definition remove_edge :: "edge_ref \<Rightarrow> graph \<Rightarrow> error + graph" where
  "remove_edge e g =
     (case map_of (edges g) e of
        None \<Rightarrow> Inl NotFoundError
      | Some ed \<Rightarrow>
          let src = source ed; dst = destination ed;
              g1 = fan_out src (Out_node_removed src dst e) g;
              g2 = fan_out dst (In_node_removed dst src e) g1;
              g3 = detach_edge e src dst g2;
              g4 = fan_out src (Out_node_removed1 src) g3;
              g5 = fan_out dst (In_node_removed1 dst) g4
          in Inr (destroy_edge e g5))"

text \<open>
  Modelled from the spec: the cascade of \<^verbatim>\<open>remove_node\<close> (section 4.1; not in the
  sources): the edges are removed one after the other, each by \<^verbatim>\<open>remove_edge\<close>. The
  cascade changes the container step by step, so its result is the container it has
  reached together with the error that stopped it, if one did.
\<close>

fun remove_edges :: "edge_ref list \<Rightarrow> graph \<Rightarrow> error option \<times> graph" where
  "remove_edges [] g = (None, g)"
| "remove_edges (e # es) g =
     (case remove_edge e g of Inl err \<Rightarrow> (Some err, g) | Inr g' \<Rightarrow> remove_edges es g')"

text \<open>
  Modelled from the spec: the edges touching a node (section 4.1; not in the sources): its
  in-edges and its out-edges in list order, each edge once (a self-loop at its place among
  the out-edges).
\<close>

definition touching :: "graph \<Rightarrow> node_ref \<Rightarrow> edge_ref list" where
  "touching g n = remdups (in_list g n @ out_list g n)"

text \<open>
  Modelled from the spec: detaching a node from its group (section 4.1; not in the
  sources): the node leaves the member set of the group it refers to and its
  back-reference is cleared; a node in no group is left as it is.
\<close>

definition leave_group :: "node_ref \<Rightarrow> graph \<Rightarrow> graph" where
  "leave_group n g =
     (case group_of g n of
        None \<Rightarrow> g
      | Some grp \<Rightarrow>
          g\<lparr>groups := AList.map_entry grp (removeAll n) (groups g),
            nodes := AList.map_entry n (\<lambda>nd. nd\<lparr>group := None\<rparr>) (nodes g)\<rparr>)"

text \<open>
  Modelled from the spec: the destruction of a node (section 4.1; not in the sources): the
  node stops being a member of the container.
\<close>

definition destroy_node :: "node_ref \<Rightarrow> graph \<Rightarrow> graph" where
  "destroy_node n g = g\<lparr>nodes := AList.delete n (nodes g)\<rparr>"

text \<open>
  Modelled from the spec: \<^verbatim>\<open>remove_node(NodeRef)\<close> of section 4.1 (not in the sources):
  \<^verbatim>\<open>NotFoundError\<close> if the node is not a member; otherwise every edge touching the node
  is removed first, then the node is detached from its group, then it is destroyed. The
  operation has several steps, so its result is the error, if any, together with the
  container as the call leaves it.
\<close>

definition remove_node :: "node_ref \<Rightarrow> graph \<Rightarrow> error option \<times> graph" where
  "remove_node n g =
     (if n \<notin> set (node_refs g) then (Some NotFoundError, g)
      else
        case remove_edges (touching g n) g of
          (Some err, g1) \<Rightarrow> (Some err, g1)
        | (None, g1) \<Rightarrow> (None, destroy_node n (leave_group n g1)))"

text \<open>
  Modelled from the spec: the creation of a group. Section 3 has the container own its
  groups and section 4.1 names the membership operations, but no operation that creates
  a group is described; a new group has no member.
\<close>

definition insert_group :: "graph \<Rightarrow> group_ref \<times> graph" where
  "insert_group g =
     (next_ref g, g\<lparr>groups := groups g @ [(next_ref g, [])], next_ref := Suc (next_ref g)\<rparr>)"

text \<open>
  Modelled from the spec: joining a group (section 4.1; not in the sources): the node
  enters the member set of the group and its back-reference is set to the group.
\<close>

definition join_group :: "node_ref \<Rightarrow> group_ref \<Rightarrow> graph \<Rightarrow> graph" where
  "join_group n grp g =
     g\<lparr>groups := AList.map_entry grp (List.insert n) (groups g),
       nodes := AList.map_entry n (\<lambda>nd. nd\<lparr>group := Some grp\<rparr>) (nodes g)\<rparr>"

text \<open>
  Modelled from the spec: \<^verbatim>\<open>insert_node_into_group\<close> of section 4.1 (not in the sources):
  the node's group back-reference is reassigned; a node belongs to at most one group, so
  it leaves the group it was in.
\<close>

definition insert_node_into_group :: "node_ref \<Rightarrow> group_ref \<Rightarrow> graph \<Rightarrow> error + graph" where
  "insert_node_into_group n grp g =
     (if n \<notin> set (node_refs g) \<or> grp \<notin> set (map fst (groups g)) then Inl NotFoundError
      else Inr (join_group n grp (leave_group n g)))"

text \<open>
  Modelled from the spec: \<^verbatim>\<open>remove_node_from_group\<close> of section 4.1 (not in the sources):
  the node leaves its group and is not destroyed.
\<close>

definition remove_node_from_group :: "node_ref \<Rightarrow> graph \<Rightarrow> error + graph" where
  "remove_node_from_group n g =
     (if n \<notin> set (node_refs g) then Inl NotFoundError else Inr (leave_group n g))"

text \<open>
  Modelled from the spec: the creation of an observer handle (sections 3 and 6; the handle
  store is not in the sources). The observer is the one the constructor of
  \<^verbatim>\<open>observer.h\<close> makes, unattached.
\<close>

definition create_observer :: "graph \<Rightarrow> observer_ref \<times> graph" where
  "create_observer g =
     (next_ref g,
      g\<lparr>observer_store := observer_store g @ [(next_ref g, new_observer)],
        next_ref := Suc (next_ref g)\<rparr>)"

text \<open>
  Modelled from the spec: \<^verbatim>\<open>attach_observer(node, observer)\<close> of sections 4.2 and 6
  (\<^verbatim>\<open>observable.h\<close> is not in the sources): the observer is appended to the node's
  collection and its target is set to the node with \<^verbatim>\<open>set_target\<close> of \<^verbatim>\<open>observer.h\<close>;
  attaching an observer the node already holds is a \<^verbatim>\<open>DuplicateAttachmentError\<close>.
\<close>

definition attach_observer :: "node_ref \<Rightarrow> observer_ref \<Rightarrow> graph \<Rightarrow> error + graph" where
  "attach_observer n ob g =
     (if n \<notin> set (node_refs g) \<or> ob \<notin> set (map fst (observer_store g)) then Inl NotFoundError
      else if ob \<in> set (observer_list g n) then Inl DuplicateAttachmentError
      else
        Inr (g\<lparr>nodes := AList.map_entry n (\<lambda>nd. nd\<lparr>observers := observers nd @ [ob]\<rparr>) (nodes g),
               observer_store := AList.map_entry ob (set_target (Some n)) (observer_store g)\<rparr>))"

text \<open>
  Modelled from the spec: \<^verbatim>\<open>detach_observer(node, observer)\<close> of sections 4.2 and 6
  (\<^verbatim>\<open>observable.h\<close> is not in the sources): the observer leaves the node's collection;
  the node and the other observers stay.
\<close>

definition detach_observer :: "node_ref \<Rightarrow> observer_ref \<Rightarrow> graph \<Rightarrow> error + graph" where
  "detach_observer n ob g =
     (if ob \<notin> set (observer_list g n) then Inl NotFoundError
      else
        Inr (g\<lparr>nodes := AList.map_entry n (\<lambda>nd. nd\<lparr>observers := removeAll ob (observers nd)\<rparr>) (nodes g)\<rparr>))"

text \<open>
  Modelled from the spec: \<^verbatim>\<open>enable\<close> on an observer handle (section 6; the handle store is
  not in the sources): \<^verbatim>\<open>enable()\<close> of \<^verbatim>\<open>observer.h\<close> applied to the stored observer.
\<close>

definition enable_observer :: "observer_ref \<Rightarrow> graph \<Rightarrow> error + graph" where
  "enable_observer ob g =
     (if ob \<notin> set (map fst (observer_store g)) then Inl NotFoundError
      else Inr (g\<lparr>observer_store := AList.map_entry ob enable (observer_store g)\<rparr>))"

text \<open>
  Modelled from the spec: \<^verbatim>\<open>disable\<close> on an observer handle (section 6; the handle store
  is not in the sources): \<^verbatim>\<open>disable()\<close> of \<^verbatim>\<open>observer.h\<close> applied to the stored observer.
\<close>

definition disable_observer :: "observer_ref \<Rightarrow> graph \<Rightarrow> error + graph" where
  "disable_observer ob g =
     (if ob \<notin> set (map fst (observer_store g)) then Inl NotFoundError
      else Inr (g\<lparr>observer_store := AList.map_entry ob disable (observer_store g)\<rparr>))"

text \<open>
  Modelled from the spec: the mutation and registration API of section 6 as one datatype
  (the container is not in the sources), so that a sequence of operations is a list.
\<close>

datatype operation =
    Insert_node
  | Remove_node node_ref
  | Insert_edge node_ref node_ref
  | Remove_edge edge_ref
  | Insert_group
  | Insert_node_into_group node_ref group_ref
  | Remove_node_from_group node_ref
  | Create_observer
  | Attach_observer node_ref observer_ref
  | Detach_observer node_ref observer_ref
  | Enable_observer observer_ref
  | Disable_observer observer_ref

text \<open>
  Modelled from the spec: what a caller holds after an operation whose failure is a typed
  result without a container (sections 6 and 7; the container is not in the sources): the
  error and the container as it was, or the new container.
\<close>

definition outcome :: "graph \<Rightarrow> error + graph \<Rightarrow> error option \<times> graph" where
  "outcome g r = (case r of Inl err \<Rightarrow> (Some err, g) | Inr g' \<Rightarrow> (None, g'))"

text \<open>
  Modelled from the spec: one call of the API of section 6 (the container is not in the
  sources): the typed failure of section 7, if any, and the container after the call.
\<close>

fun apply_operation :: "operation \<Rightarrow> graph \<Rightarrow> error option \<times> graph" where
  "apply_operation Insert_node g = (None, snd (insert_node g))"
| "apply_operation (Remove_node n) g = remove_node n g"
| "apply_operation (Insert_edge src dst) g = outcome g (map_sum id snd (insert_edge src dst g))"
| "apply_operation (Remove_edge e) g = outcome g (remove_edge e g)"
| "apply_operation Insert_group g = (None, snd (insert_group g))"
| "apply_operation (Insert_node_into_group n grp) g = outcome g (insert_node_into_group n grp g)"
| "apply_operation (Remove_node_from_group n) g = outcome g (remove_node_from_group n g)"
| "apply_operation Create_observer g = (None, snd (create_observer g))"
| "apply_operation (Attach_observer n ob) g = outcome g (attach_observer n ob g)"
| "apply_operation (Detach_observer n ob) g = outcome g (detach_observer n ob g)"
| "apply_operation (Enable_observer ob) g = outcome g (enable_observer ob g)"
| "apply_operation (Disable_observer ob) g = outcome g (disable_observer ob g)"

text \<open>
  Modelled from the spec: one call of the API as a caller sees the container afterwards
  (sections 6 and 7; the container is not in the sources).
\<close>

definition step :: "operation \<Rightarrow> graph \<Rightarrow> graph" where
  "step op g = snd (apply_operation op g)"

text \<open>
  Modelled from the spec: a sequence of calls of the API (section 6; the container is not
  in the sources), each on the container the one before left.
\<close>

definition run :: "operation list \<Rightarrow> graph \<Rightarrow> graph" where
  "run ops g = fold step ops g"

text \<open>
  Modelled from the spec: the adjacency symmetry invariant of sections 3 and 8 (the
  container is not in the sources): every edge in a member node's out-list has that node
  as its source, and every edge in its in-list has it as its destination.
\<close>

definition adjacency_symmetry :: "graph \<Rightarrow> bool" where
  "adjacency_symmetry g =
     list_all
       (\<lambda>n. list_all (\<lambda>e. edge_source g e = Some n) (out_list g n) \<and>
            list_all (\<lambda>e. edge_destination g e = Some n) (in_list g n))
       (node_refs g)"

text \<open>
  Modelled from the spec: the edge invariant of section 3 (the container is not in the
  sources): an edge is never half-connected, so every member edge is in the out-list of its
  source and in the in-list of its destination; its reference is below the counter that
  new references come from.
\<close>

definition edges_attached :: "graph \<Rightarrow> bool" where
  "edges_attached g \<longleftrightarrow>
     (\<forall>e ed. map_of (edges g) e = Some ed \<longrightarrow>
        e < next_ref g \<and> e \<in> set (out_list g (source ed)) \<and> e \<in> set (in_list g (destination ed)))"

text \<open>
  Modelled from the spec: the out-list half of the adjacency symmetry of section 3 (the
  container is not in the sources), over all references.
\<close>

definition out_symmetric :: "graph \<Rightarrow> bool" where
  "out_symmetric g \<longleftrightarrow> (\<forall>n e. e \<in> set (out_list g n) \<longrightarrow> edge_source g e = Some n)"

text \<open>
  Modelled from the spec: the in-list half of the adjacency symmetry of section 3 (the
  container is not in the sources), over all references.
\<close>

definition in_symmetric :: "graph \<Rightarrow> bool" where
  "in_symmetric g \<longleftrightarrow> (\<forall>n e. e \<in> set (in_list g n) \<longrightarrow> edge_destination g e = Some n)"

text \<open>
  Modelled from the spec: the group invariant of section 3 (the container is not in the
  sources): a node's group back-reference and the groups' member sets agree, so a node
  belongs to at most one group.
\<close>

definition groups_consistent :: "graph \<Rightarrow> bool" where
  "groups_consistent g \<longleftrightarrow>
     (\<forall>n grp. group_of g n = Some grp \<longleftrightarrow> n \<in> set (members_of g grp))"

text \<open>
  Modelled from the spec: the data model's invariants of section 3 together (the container
  is not in the sources); every sequence of operations keeps them.
\<close>

definition consistent :: "graph \<Rightarrow> bool" where
  "consistent g \<longleftrightarrow> edges_attached g \<and> out_symmetric g \<and> in_symmetric g \<and> groups_consistent g"

text \<open>
  Modelled from the spec: the edge-removal protocol of section 4.1 (not in the sources) as
  a relation between the container before and after the removal of one edge: the edge is
  a member from \<open>src\<close> to \<open>dst\<close> and attached on both sides, \<^verbatim>\<open>remove_edge\<close> succeeds, the
  two edge-context callbacks fire on the node table of before, the two no-context
  callbacks on the node table of after, where the edge is detached and no member.
\<close>

definition removal_step :: "graph \<Rightarrow> edge_ref \<Rightarrow> graph \<Rightarrow> bool" where
  "removal_step a e b \<longleftrightarrow>
     (\<exists>src dst.
        edge_source a e = Some src \<and> edge_destination a e = Some dst \<and>
        e \<in> set (out_list a src) \<and> e \<in> set (in_list a dst) \<and>
        remove_edge e a = Inr b \<and>
        e \<notin> set (out_list b src) \<and> e \<notin> set (in_list b dst) \<and> e \<notin> set (edge_refs b) \<and>
        trace b = trace a @
          map (deliver (Out_node_removed src dst e) (nodes a)) (enabled_observers a src) @
          map (deliver (In_node_removed dst src e) (nodes a)) (enabled_observers a dst) @
          map (deliver (Out_node_removed1 src) (nodes b)) (enabled_observers a src) @
          map (deliver (In_node_removed1 dst) (nodes b)) (enabled_observers a dst))"

text \<open>
  Example containers for the concrete instances below: \<open>example_base\<close> has two nodes
  and an observer attached to each; \<open>example_graph\<close> has one edge from node 0 to node 1
  as well (the references are 0 and 1 for the nodes, 2 and 3 for the observers, 4 for the
  edge).
\<close>

definition example_nodes :: "operation list" where
  "example_nodes =
     [Insert_node, Insert_node, Create_observer, Create_observer,
      Attach_observer 0 2, Attach_observer 1 3]"

definition example_base :: graph where
  "example_base = run example_nodes empty_graph"

definition example_ops :: "operation list" where
  "example_ops =
     [Insert_node, Insert_node, Create_observer, Create_observer,
      Attach_observer 0 2, Attach_observer 1 3, Insert_edge 0 1]"

definition example_graph :: graph where
  "example_graph = run example_ops empty_graph"

text \<open>
  \<open>example_hub\<close> is \<open>example_base\<close> with three edges touching node 0 (edge 4 from node
  0 to node 1, edge 5 from node 1 to node 0 and the self-loop 6) and node 0 in a group
  (reference 7);
  \<open>example_observed\<close> has one node with two observers (references 1 and 2) attached
  in that order.
\<close>

definition example_hub_ops :: "operation list" where
  "example_hub_ops =
     example_nodes @
     [Insert_edge 0 1, Insert_edge 1 0, Insert_edge 0 0, Insert_group, Insert_node_into_group 0 7]"

definition example_hub :: graph where
  "example_hub = run example_hub_ops empty_graph"

definition example_observed :: graph where
  "example_observed =
     run [Insert_node, Create_observer, Create_observer, Attach_observer 0 1, Attach_observer 0 2]
       empty_graph"

section \<open>Properties of the observer base class\<close>

lemma isEnabled_call_methods:
  "Disable \<notin> set ms \<Longrightarrow> isEnabled this \<Longrightarrow> isEnabled (call_methods ms this)"
  unfolding call_methods_def
proof (induction ms arbitrary: this)
  case Nil
  then show ?case by simp
next
  case (Cons m ms)
  from Cons.prems have "isEnabled (call_method m this)"
    by (cases m) (simp_all add: isEnabled_def set_target_def setName_def enable_def)
  with Cons show ?case by simp
qed

lemma target_call_methods:
  "\<not> list_ex is_set_target ms \<Longrightarrow> m_target (call_methods ms this) = m_target this"
  unfolding call_methods_def
proof (induction ms arbitrary: this)
  case Nil
  then show ?case by simp
next
  case (Cons m ms)
  then show ?case
    by (cases m) (simp_all add: setName_def enable_def disable_def)
qed

lemma name_call_methods:
  "\<not> list_ex is_setName ms \<Longrightarrow> m_name (call_methods ms this) = m_name this"
  unfolding call_methods_def
proof (induction ms arbitrary: this)
  case Nil
  then show ?case by simp
next
  case (Cons m ms)
  then show ?case
    by (cases m) (simp_all add: set_target_def enable_def disable_def)
qed

text \<open>
  Claim C7. A newly constructed observer is enabled, and it stays enabled through every
  history of member calls that has no \<^verbatim>\<open>disable()\<close> in it; attaching the observer to a
  node writes the target back-reference with \<^verbatim>\<open>set_target\<close>, so an attached observer
  that was never disabled is enabled.
\<close>

theorem new_observer_enabled:
  "isEnabled (new_observer :: 'a observer) \<and>
   isEnabled (set_target (Some n) (new_observer :: 'a observer)) \<and>
   (Disable \<notin> set ms \<longrightarrow> isEnabled (call_methods ms (new_observer :: 'a observer)))"
proof -
  have fresh: "isEnabled (new_observer :: 'a observer)"
    by (simp add: isEnabled_def new_observer_def)
  then have "Disable \<notin> set ms \<longrightarrow> isEnabled (call_methods ms (new_observer :: 'a observer))"
    using isEnabled_call_methods by blast
  moreover have "isEnabled (set_target (Some n) (new_observer :: 'a observer))"
    by (simp add: isEnabled_def set_target_def new_observer_def)
  ultimately show ?thesis using fresh by simp
qed

theorem new_observer_enabled_witness:
  "Disable \<notin> set [Set_target (Some (3::nat)), SetName ''layout'', Enable] \<and>
   isEnabled (call_methods [Set_target (Some (3::nat)), SetName ''layout'', Enable] new_observer) \<and>
   \<not> isEnabled (call_methods [Set_target (Some (3::nat)), Disable] new_observer)"
  using new_observer_enabled [of "3::nat" "[Set_target (Some (3::nat)), SetName ''layout'', Enable]"]
  by (simp add: call_methods_def disable_def set_target_def isEnabled_def new_observer_def)

text \<open>
  Claim C8. \<^verbatim>\<open>enable()\<close> and \<^verbatim>\<open>disable()\<close> are idempotent, and each fixes what
  \<^verbatim>\<open>isEnabled()\<close> returns whatever the flag was before.
\<close>

theorem enable_disable_idempotent:
  "enable (enable this) = enable this \<and>
   disable (disable this) = disable this \<and>
   isEnabled (enable this) \<and>
   \<not> isEnabled (disable this)"
  by (simp add: enable_def disable_def isEnabled_def)

text \<open>
  Claim C10. A newly constructed observer has the null target and the empty name;
  \<^verbatim>\<open>get_target()\<close> stays null through every history of calls without \<^verbatim>\<open>set_target\<close>
  and \<^verbatim>\<open>getName()\<close> stays empty through every history without \<^verbatim>\<open>setName\<close>; and
  \<^verbatim>\<open>set_target(t)\<close> makes \<^verbatim>\<open>get_target()\<close> return \<open>t\<close> and leaves the enabled flag
  and the name as they were.
\<close>

theorem new_observer_target_name:
  "get_target (new_observer :: 'a observer) = None \<and>
   getName (new_observer :: 'a observer) = [] \<and>
   (\<not> list_ex is_set_target ms \<longrightarrow>
      get_target (call_methods ms (new_observer :: 'a observer)) = None) \<and>
   (\<not> list_ex is_setName ms \<longrightarrow>
      getName (call_methods ms (new_observer :: 'a observer)) = []) \<and>
   get_target (set_target t this) = t \<and>
   isEnabled (set_target t this) = isEnabled this \<and>
   getName (set_target t this) = getName this"
proof -
  have "\<not> list_ex is_set_target ms \<longrightarrow>
      get_target (call_methods ms (new_observer :: 'a observer)) = None"
    using target_call_methods [of ms "new_observer :: 'a observer"]
    by (simp add: get_target_def new_observer_def)
  moreover have "\<not> list_ex is_setName ms \<longrightarrow>
      getName (call_methods ms (new_observer :: 'a observer)) = []"
    using name_call_methods [of ms "new_observer :: 'a observer"]
    by (simp add: getName_def new_observer_def)
  ultimately show ?thesis
    by (simp add: get_target_def getName_def isEnabled_def set_target_def new_observer_def)
qed

theorem new_observer_target_name_witness:
  "\<not> list_ex is_set_target [SetName ''layout'', Disable :: nat member_call] \<and>
   get_target (call_methods [SetName ''layout'', Disable :: nat member_call] new_observer) = None \<and>
   \<not> list_ex is_setName [Set_target (Some (3::nat)), Disable] \<and>
   getName (call_methods [Set_target (Some (3::nat)), Disable] new_observer) = [] \<and>
   get_target (call_methods [Set_target (Some (3::nat)), Disable] new_observer) = Some 3"
  using new_observer_target_name [of "[SetName ''layout'', Disable :: nat member_call]"]
    new_observer_target_name [of "[Set_target (Some (3::nat)), Disable]"]
  by (simp add: call_methods_def get_target_def getName_def set_target_def setName_def
      disable_def new_observer_def)

section \<open>Properties of the node observer interface\<close>

text \<open>
  Claim C6, as the class is written. The interface has exactly six callback hooks, not
  five: for in-edges the inserted hook, the removed hook with the edge as context and the
  final removed hook without it, and the same three for out-edges. The six are pairwise
  different, every call belongs to one of them, and exactly the two final hooks take no
  edge.
\<close>

theorem node_observer_six_hooks:
  "distinct node_observer_hooks \<and>
   length node_observer_hooks = 6 \<and>
   set node_observer_hooks = UNIV \<and>
   hook_of c \<in> set node_observer_hooks \<and>
   filter (\<lambda>h. \<not> has_edge_context h) node_observer_hooks =
     [On_in_node_removed1, On_out_node_removed1]"
proof -
  have "h \<in> set node_observer_hooks" for h
    by (cases h) (simp_all add: node_observer_hooks_def)
  then have "set node_observer_hooks = UNIV" and "hook_of c \<in> set node_observer_hooks"
    by auto
  then show ?thesis
    by (simp add: node_observer_hooks_def)
qed

theorem node_observer_five_hooks_counterexample:
  "card (set node_observer_hooks) \<noteq> 5 \<and>
   On_out_node_removed1 \<in> set node_observer_hooks \<and>
   On_out_node_removed1 \<notin>
     {On_in_node_inserted, On_in_node_removed, On_in_node_removed1,
      On_out_node_inserted, On_out_node_removed}"
  by (simp add: node_observer_hooks_def)

text \<open>
  Claim C9. A hook that a concrete observer does not override runs the body of the base
  class, which changes nothing: the observer and the store holding the target node, the
  peer node and the edge are returned as they were passed.
\<close>

theorem default_hook_noop:
  "ov (hook_of c) = None \<Longrightarrow> dispatch ov c (this, w) = (this, w)"
  by (cases c)
    (simp_all add: dispatch_def on_in_node_inserted_def on_in_node_removed_def
      on_in_node_removed1_def on_out_node_inserted_def on_out_node_removed_def
      on_out_node_removed1_def)

theorem default_hook_noop_witness:
  "counting_overrides (hook_of (Out_node_removed1 (0::nat) :: (nat, nat) call)) = None \<and>
   dispatch counting_overrides (Out_node_removed1 0) (new_observer, 7) = (new_observer, 7) \<and>
   dispatch counting_overrides (In_node_inserted 0 1 2) (new_observer, 7) = (new_observer, 8)"
  using default_hook_noop [of counting_overrides "Out_node_removed1 0" new_observer 7]
  by (simp add: counting_overrides_def dispatch_def)


section \<open>The invariant of the graph container\<close>

lemmas view_defs = out_list_def in_list_def group_of_def observer_list_def members_of_def

lemma member_iff: "n \<in> set (node_refs g) \<longleftrightarrow> map_of (nodes g) n \<noteq> None"
  by (simp add: node_refs_def map_of_eq_None_iff)

lemma edge_refs_iff: "e \<in> set (edge_refs g) \<longleftrightarrow> map_of (edges g) e \<noteq> None"
  by (simp add: edge_refs_def map_of_eq_None_iff)

lemma keys_map_entry: "map fst (AList.map_entry k f xs) = map fst xs"
  by (induction xs) auto

lemma edge_source_eq:
  "map_of (edges g') = map_of (edges g) \<Longrightarrow> edge_source g' = edge_source g"
  "map_of (edges g') = map_of (edges g) \<Longrightarrow> edge_destination g' = edge_destination g"
  by (simp_all add: edge_source_def edge_destination_def fun_eq_iff)

lemma consistent_frame:
  assumes "consistent g"
    and "out_list g' = out_list g" and "in_list g' = in_list g"
    and "group_of g' = group_of g" and "members_of g' = members_of g"
    and "map_of (edges g') = map_of (edges g)" and "next_ref g \<le> next_ref g'"
  shows "consistent g'"
proof -
  have "edges_attached g'"
    using assms unfolding consistent_def edges_attached_def
    by (metis less_le_trans)
  moreover have "out_symmetric g'" "in_symmetric g'" "groups_consistent g'"
    using assms edge_source_eq [of g' g]
    unfolding consistent_def out_symmetric_def in_symmetric_def groups_consistent_def
    by simp_all
  ultimately show ?thesis by (simp add: consistent_def)
qed

subsection \<open>fan_out\<close>

lemma fan_out_fields [simp]:
  "nodes (fan_out n c g) = nodes g"
  "edges (fan_out n c g) = edges g"
  "groups (fan_out n c g) = groups g"
  "observer_store (fan_out n c g) = observer_store g"
  "next_ref (fan_out n c g) = next_ref g"
  "trace (fan_out n c g) = trace g @ map (deliver c (nodes g)) (enabled_observers g n)"
  by (simp_all add: fan_out_def)

lemma fan_out_views [simp]:
  "out_list (fan_out n c g) = out_list g"
  "in_list (fan_out n c g) = in_list g"
  "group_of (fan_out n c g) = group_of g"
  "observer_list (fan_out n c g) = observer_list g"
  "members_of (fan_out n c g) = members_of g"
  "node_refs (fan_out n c g) = node_refs g"
  "observer_enabled (fan_out n c g) = observer_enabled g"
  by (simp_all add: view_defs node_refs_def observer_enabled_def fun_eq_iff)

lemma fan_out_enabled_observers [simp]:
  "enabled_observers (fan_out n c g) = enabled_observers g"
  by (simp add: enabled_observers_def fun_eq_iff)

lemma consistent_fan_out [simp]: "consistent (fan_out n c g) = consistent g"
  using consistent_frame [of g "fan_out n c g"] consistent_frame [of "fan_out n c g" g]
  by auto

lemma consistent_empty: "consistent empty_graph"
  by (simp add: consistent_def empty_graph_def view_defs edges_attached_def out_symmetric_def
      in_symmetric_def groups_consistent_def)

subsection \<open>insert_node, insert_group, create_observer\<close>

lemma insert_node_views [simp]:
  "out_list (snd (insert_node g)) = out_list g"
  "in_list (snd (insert_node g)) = in_list g"
  "group_of (snd (insert_node g)) = group_of g"
  "observer_list (snd (insert_node g)) = observer_list g"
  "members_of (snd (insert_node g)) = members_of g"
  "edges (snd (insert_node g)) = edges g"
  "next_ref (snd (insert_node g)) = Suc (next_ref g)"
  by (auto simp: view_defs insert_node_def fun_eq_iff map_add_def split: option.splits)

lemma consistent_insert_node: "consistent g \<Longrightarrow> consistent (snd (insert_node g))"
  by (rule consistent_frame [of g]) simp_all

lemma insert_group_views [simp]:
  "out_list (snd (insert_group g)) = out_list g"
  "in_list (snd (insert_group g)) = in_list g"
  "group_of (snd (insert_group g)) = group_of g"
  "observer_list (snd (insert_group g)) = observer_list g"
  "members_of (snd (insert_group g)) = members_of g"
  "edges (snd (insert_group g)) = edges g"
  "next_ref (snd (insert_group g)) = Suc (next_ref g)"
  by (auto simp: view_defs insert_group_def fun_eq_iff map_add_def split: option.splits)

lemma consistent_insert_group: "consistent g \<Longrightarrow> consistent (snd (insert_group g))"
  by (rule consistent_frame [of g]) simp_all

lemma create_observer_views [simp]:
  "nodes (snd (create_observer g)) = nodes g"
  "groups (snd (create_observer g)) = groups g"
  "edges (snd (create_observer g)) = edges g"
  "next_ref (snd (create_observer g)) = Suc (next_ref g)"
  by (simp_all add: create_observer_def)

lemma consistent_create_observer: "consistent g \<Longrightarrow> consistent (snd (create_observer g))"
  by (rule consistent_frame [of g]) (simp_all add: view_defs fun_eq_iff)

subsection \<open>observer operations\<close>

lemma consistent_attach_observer:
  "consistent g \<Longrightarrow> attach_observer n ob g = Inr g' \<Longrightarrow> consistent g'"
  by (rule consistent_frame [of g])
    (auto simp: attach_observer_def view_defs fun_eq_iff map_of_map_entry
      split: if_splits option.splits)

lemma consistent_detach_observer:
  "consistent g \<Longrightarrow> detach_observer n ob g = Inr g' \<Longrightarrow> consistent g'"
  by (rule consistent_frame [of g])
    (auto simp: detach_observer_def view_defs fun_eq_iff map_of_map_entry
      split: if_splits option.splits)

lemma consistent_enable_observer:
  "consistent g \<Longrightarrow> enable_observer ob g = Inr g' \<Longrightarrow> consistent g'"
  by (rule consistent_frame [of g])
    (auto simp: enable_observer_def view_defs fun_eq_iff split: if_splits)

lemma consistent_disable_observer:
  "consistent g \<Longrightarrow> disable_observer ob g = Inr g' \<Longrightarrow> consistent g'"
  by (rule consistent_frame [of g])
    (auto simp: disable_observer_def view_defs fun_eq_iff split: if_splits)

subsection \<open>insert_edge\<close>

lemma create_edge_views [simp]:
  "fst (create_edge src dst g) = next_ref g"
  "nodes (snd (create_edge src dst g)) = nodes g"
  "groups (snd (create_edge src dst g)) = groups g"
  "observer_store (snd (create_edge src dst g)) = observer_store g"
  "trace (snd (create_edge src dst g)) = trace g"
  "next_ref (snd (create_edge src dst g)) = Suc (next_ref g)"
  "out_list (snd (create_edge src dst g)) = out_list g"
  "in_list (snd (create_edge src dst g)) = in_list g"
  "group_of (snd (create_edge src dst g)) = group_of g"
  "observer_list (snd (create_edge src dst g)) = observer_list g"
  "members_of (snd (create_edge src dst g)) = members_of g"
  "node_refs (snd (create_edge src dst g)) = node_refs g"
  "observer_enabled (snd (create_edge src dst g)) = observer_enabled g"
  by (simp_all add: create_edge_def view_defs node_refs_def observer_enabled_def fun_eq_iff)

lemma create_edge_enabled_observers [simp]:
  "enabled_observers (snd (create_edge src dst g)) = enabled_observers g"
  by (simp add: enabled_observers_def fun_eq_iff)

lemma create_edge_edges:
  "map_of (edges g) (next_ref g) = None \<Longrightarrow>
   map_of (edges (snd (create_edge src dst g))) =
     (map_of (edges g))(next_ref g \<mapsto> \<lparr>source = src, destination = dst\<rparr>)"
  by (auto simp: create_edge_def fun_eq_iff map_add_def split: option.splits)

lemma add_out_edge_fields [simp]:
  "edges (add_out_edge e n g) = edges g"
  "groups (add_out_edge e n g) = groups g"
  "next_ref (add_out_edge e n g) = next_ref g"
  "observer_store (add_out_edge e n g) = observer_store g"
  "trace (add_out_edge e n g) = trace g"
  "node_refs (add_out_edge e n g) = node_refs g"
  by (simp_all add: add_out_edge_def node_refs_def keys_map_entry)

lemma add_out_edge_views [simp]:
  "out_list (add_out_edge e n g) m =
     (if m = n \<and> n \<in> set (node_refs g) then out_list g n @ [e] else out_list g m)"
  "in_list (add_out_edge e n g) = in_list g"
  "group_of (add_out_edge e n g) = group_of g"
  "observer_list (add_out_edge e n g) = observer_list g"
  "members_of (add_out_edge e n g) = members_of g"
  "observer_enabled (add_out_edge e n g) = observer_enabled g"
  by (auto simp: view_defs add_out_edge_def fun_eq_iff map_of_map_entry member_iff
      observer_enabled_def split: option.splits)

lemma add_in_edge_fields [simp]:
  "edges (add_in_edge e n g) = edges g"
  "groups (add_in_edge e n g) = groups g"
  "next_ref (add_in_edge e n g) = next_ref g"
  "observer_store (add_in_edge e n g) = observer_store g"
  "trace (add_in_edge e n g) = trace g"
  "node_refs (add_in_edge e n g) = node_refs g"
  by (simp_all add: add_in_edge_def node_refs_def keys_map_entry)

lemma add_in_edge_views [simp]:
  "in_list (add_in_edge e n g) m =
     (if m = n \<and> n \<in> set (node_refs g) then in_list g n @ [e] else in_list g m)"
  "out_list (add_in_edge e n g) = out_list g"
  "group_of (add_in_edge e n g) = group_of g"
  "observer_list (add_in_edge e n g) = observer_list g"
  "members_of (add_in_edge e n g) = members_of g"
  "observer_enabled (add_in_edge e n g) = observer_enabled g"
  by (auto simp: view_defs add_in_edge_def fun_eq_iff map_of_map_entry member_iff
      observer_enabled_def split: option.splits)

lemma add_edge_enabled_observers [simp]:
  "enabled_observers (add_out_edge e n g) = enabled_observers g"
  "enabled_observers (add_in_edge e n g) = enabled_observers g"
  by (simp_all add: enabled_observers_def fun_eq_iff)

lemma insert_edge_Inr:
  assumes "src \<in> set (node_refs g)" and "dst \<in> set (node_refs g)"
  shows "insert_edge src dst g =
     Inr (next_ref g,
          fan_out dst (In_node_inserted dst src (next_ref g))
            (fan_out src (Out_node_inserted src dst (next_ref g))
              (add_in_edge (next_ref g) dst
                (add_out_edge (next_ref g) src (snd (create_edge src dst g))))))"
  using assms by (simp add: insert_edge_def Let_def split_def)

lemma insert_edge_Inl:
  "src \<notin> set (node_refs g) \<or> dst \<notin> set (node_refs g) \<Longrightarrow>
   insert_edge src dst g = Inl InvalidEndpointError"
  by (auto simp: insert_edge_def)

lemma fresh_edge: "edges_attached g \<Longrightarrow> map_of (edges g) (next_ref g) = None"
  unfolding edges_attached_def by (cases "map_of (edges g) (next_ref g)") auto

lemma fresh_edge_out: "consistent g \<Longrightarrow> next_ref g \<notin> set (out_list g n)"
proof
  assume "consistent g" and "next_ref g \<in> set (out_list g n)"
  then have "edge_source g (next_ref g) = Some n" and "map_of (edges g) (next_ref g) = None"
    by (simp_all add: consistent_def out_symmetric_def fresh_edge)
  then show False by (simp add: edge_source_def)
qed

lemma fresh_edge_in: "consistent g \<Longrightarrow> next_ref g \<notin> set (in_list g n)"
proof
  assume "consistent g" and "next_ref g \<in> set (in_list g n)"
  then have "edge_destination g (next_ref g) = Some n" and "map_of (edges g) (next_ref g) = None"
    by (simp_all add: consistent_def in_symmetric_def fresh_edge)
  then show False by (simp add: edge_destination_def)
qed

lemma consistent_insert_edge:
  assumes "consistent g" and "insert_edge src dst g = Inr (e, g')"
  shows "consistent g'"
proof -
  from assms(2) have mem: "src \<in> set (node_refs g)" "dst \<in> set (node_refs g)"
    by (auto simp: insert_edge_def split: if_splits)
  define g2 where
    "g2 = add_in_edge (next_ref g) dst (add_out_edge (next_ref g) src (snd (create_edge src dst g)))"
  from assms(2) mem have g': "g' = fan_out dst (In_node_inserted dst src (next_ref g))
      (fan_out src (Out_node_inserted src dst (next_ref g)) g2)"
    by (auto simp: insert_edge_Inr g2_def)
  from assms(1) have fresh: "map_of (edges g) (next_ref g) = None"
    by (simp add: consistent_def fresh_edge)
  have em: "map_of (edges g2) = (map_of (edges g))(next_ref g \<mapsto> \<lparr>source = src, destination = dst\<rparr>)"
    by (simp add: g2_def create_edge_edges fresh)
  have ol: "out_list g2 m = (if m = src then out_list g src @ [next_ref g] else out_list g m)" for m
    using mem by (simp add: g2_def)
  have il: "in_list g2 m = (if m = dst then in_list g dst @ [next_ref g] else in_list g m)" for m
    using mem by (simp add: g2_def)
  have nx: "next_ref g2 = Suc (next_ref g)" by (simp add: g2_def)
  have gr: "group_of g2 = group_of g" "members_of g2 = members_of g" by (simp_all add: g2_def)
  have "edges_attached g2"
    using assms(1) unfolding consistent_def edges_attached_def
    by (auto simp: em ol il nx less_Suc_eq)
  moreover have "out_symmetric g2"
    unfolding out_symmetric_def
  proof (intro allI impI)
    fix n e
    assume "e \<in> set (out_list g2 n)"
    then consider "n = src" and "e = next_ref g" | "e \<in> set (out_list g n)"
      by (auto simp: ol split: if_splits)
    then show "edge_source g2 e = Some n"
    proof cases
      case 1
      then show ?thesis by (simp add: edge_source_def em)
    next
      case 2
      with assms(1) have "edge_source g e = Some n" and "e \<noteq> next_ref g"
        using fresh_edge_out [of g n] by (auto simp: consistent_def out_symmetric_def)
      then show ?thesis by (simp add: edge_source_def em)
    qed
  qed
  moreover have "in_symmetric g2"
    unfolding in_symmetric_def
  proof (intro allI impI)
    fix n e
    assume "e \<in> set (in_list g2 n)"
    then consider "n = dst" and "e = next_ref g" | "e \<in> set (in_list g n)"
      by (auto simp: il split: if_splits)
    then show "edge_destination g2 e = Some n"
    proof cases
      case 1
      then show ?thesis by (simp add: edge_destination_def em)
    next
      case 2
      with assms(1) have "edge_destination g e = Some n" and "e \<noteq> next_ref g"
        using fresh_edge_in [of g n] by (auto simp: consistent_def in_symmetric_def)
      then show ?thesis by (simp add: edge_destination_def em)
    qed
  qed
  moreover have "groups_consistent g2"
    using assms(1) unfolding consistent_def groups_consistent_def by (simp add: gr)
  ultimately have "consistent g2" by (simp add: consistent_def)
  then show ?thesis by (simp add: g')
qed

subsection \<open>remove_edge\<close>

lemma detach_edge_fields [simp]:
  "edges (detach_edge e s d g) = edges g"
  "groups (detach_edge e s d g) = groups g"
  "next_ref (detach_edge e s d g) = next_ref g"
  "observer_store (detach_edge e s d g) = observer_store g"
  "trace (detach_edge e s d g) = trace g"
  "node_refs (detach_edge e s d g) = node_refs g"
  by (simp_all add: detach_edge_def node_refs_def keys_map_entry)

lemma detach_edge_views [simp]:
  "out_list (detach_edge e s d g) m =
     (if m = s then removeAll e (out_list g s) else out_list g m)"
  "in_list (detach_edge e s d g) m =
     (if m = d then removeAll e (in_list g d) else in_list g m)"
  "group_of (detach_edge e s d g) = group_of g"
  "observer_list (detach_edge e s d g) = observer_list g"
  "members_of (detach_edge e s d g) = members_of g"
  "observer_enabled (detach_edge e s d g) = observer_enabled g"
  by (auto simp: view_defs detach_edge_def fun_eq_iff map_of_map_entry
      observer_enabled_def split: option.splits)

lemma detach_edge_enabled_observers [simp]:
  "enabled_observers (detach_edge e s d g) = enabled_observers g"
  by (simp add: enabled_observers_def fun_eq_iff)

lemma destroy_edge_fields [simp]:
  "nodes (destroy_edge e g) = nodes g"
  "groups (destroy_edge e g) = groups g"
  "next_ref (destroy_edge e g) = next_ref g"
  "observer_store (destroy_edge e g) = observer_store g"
  "trace (destroy_edge e g) = trace g"
  "map_of (edges (destroy_edge e g)) = (map_of (edges g))(e := None)"
  by (simp_all add: destroy_edge_def AList.delete_conv')

lemma destroy_edge_views [simp]:
  "out_list (destroy_edge e g) = out_list g"
  "in_list (destroy_edge e g) = in_list g"
  "group_of (destroy_edge e g) = group_of g"
  "observer_list (destroy_edge e g) = observer_list g"
  "members_of (destroy_edge e g) = members_of g"
  "node_refs (destroy_edge e g) = node_refs g"
  "observer_enabled (destroy_edge e g) = observer_enabled g"
  by (simp_all add: view_defs node_refs_def observer_enabled_def fun_eq_iff)

lemma destroy_edge_enabled_observers [simp]:
  "enabled_observers (destroy_edge e g) = enabled_observers g"
  by (simp add: enabled_observers_def fun_eq_iff)

lemma remove_edge_Inr:
  assumes "map_of (edges g) e = Some ed"
  shows "remove_edge e g =
     Inr (destroy_edge e
           (fan_out (destination ed) (In_node_removed1 (destination ed))
             (fan_out (source ed) (Out_node_removed1 (source ed))
               (detach_edge e (source ed) (destination ed)
                 (fan_out (destination ed) (In_node_removed (destination ed) (source ed) e)
                   (fan_out (source ed) (Out_node_removed (source ed) (destination ed) e) g))))))"
  using assms by (simp add: remove_edge_def Let_def)

lemma remove_edge_Inl: "map_of (edges g) e = None \<Longrightarrow> remove_edge e g = Inl NotFoundError"
  by (simp add: remove_edge_def)

lemma remove_edge_views:
  assumes "remove_edge e g = Inr g'"
  shows "\<exists>ed. map_of (edges g) e = Some ed \<and>
     (\<forall>m. out_list g' m = (if m = source ed then removeAll e (out_list g m) else out_list g m)) \<and>
     (\<forall>m. in_list g' m = (if m = destination ed then removeAll e (in_list g m) else in_list g m))"
    and "map_of (edges g') = (map_of (edges g))(e := None)"
    and "group_of g' = group_of g" and "members_of g' = members_of g"
    and "node_refs g' = node_refs g" and "next_ref g' = next_ref g"
    and "observer_list g' = observer_list g" and "observer_enabled g' = observer_enabled g"
    and "groups g' = groups g" and "observer_store g' = observer_store g"
proof -
  from assms obtain ed where ed: "map_of (edges g) e = Some ed"
    by (cases "map_of (edges g) e") (simp_all add: remove_edge_def)
  note g' = assms [unfolded remove_edge_Inr [OF ed], simplified, symmetric]
  show "\<exists>ed. map_of (edges g) e = Some ed \<and>
     (\<forall>m. out_list g' m = (if m = source ed then removeAll e (out_list g m) else out_list g m)) \<and>
     (\<forall>m. in_list g' m = (if m = destination ed then removeAll e (in_list g m) else in_list g m))"
    using ed by (simp add: g')
  show "map_of (edges g') = (map_of (edges g))(e := None)"
    and "group_of g' = group_of g" and "members_of g' = members_of g"
    and "node_refs g' = node_refs g" and "next_ref g' = next_ref g"
    and "observer_list g' = observer_list g" and "observer_enabled g' = observer_enabled g"
    and "groups g' = groups g" and "observer_store g' = observer_store g"
    by (simp_all add: g')
qed

lemma consistent_remove_edge:
  assumes "consistent g" and "remove_edge e g = Inr g'"
  shows "consistent g'"
proof -
  from remove_edge_views(1) [OF assms(2)] obtain ed where
    ed: "map_of (edges g) e = Some ed"
    and ol: "\<And>m. out_list g' m = (if m = source ed then removeAll e (out_list g m) else out_list g m)"
    and il: "\<And>m. in_list g' m = (if m = destination ed then removeAll e (in_list g m) else in_list g m)"
    by blast
  note em = remove_edge_views(2) [OF assms(2)]
  have nx: "next_ref g' = next_ref g" by (rule remove_edge_views(6) [OF assms(2)])
  have out_sub: "x \<in> set (out_list g' m) \<Longrightarrow> x \<in> set (out_list g m)" for x m
    by (auto simp: ol split: if_splits)
  have in_sub: "x \<in> set (in_list g' m) \<Longrightarrow> x \<in> set (in_list g m)" for x m
    by (auto simp: il split: if_splits)
  have out_not: "e \<notin> set (out_list g' m)" for m
  proof
    assume a: "e \<in> set (out_list g' m)"
    then have "e \<in> set (out_list g m)" by (rule out_sub)
    with assms(1) have "edge_source g e = Some m" by (simp add: consistent_def out_symmetric_def)
    with ed have "m = source ed" by (simp add: edge_source_def)
    with a show False by (simp add: ol)
  qed
  have in_not: "e \<notin> set (in_list g' m)" for m
  proof
    assume a: "e \<in> set (in_list g' m)"
    then have "e \<in> set (in_list g m)" by (rule in_sub)
    with assms(1) have "edge_destination g e = Some m"
      by (simp add: consistent_def in_symmetric_def)
    with ed have "m = destination ed" by (simp add: edge_destination_def)
    with a show False by (simp add: il)
  qed
  have "edges_attached g'"
    unfolding edges_attached_def
  proof (intro allI impI)
    fix x xd
    assume "map_of (edges g') x = Some xd"
    then have ne: "x \<noteq> e" and old: "map_of (edges g) x = Some xd"
      by (auto simp: em split: if_splits)
    with assms(1) have "x < next_ref g" "x \<in> set (out_list g (source xd))"
      "x \<in> set (in_list g (destination xd))"
      by (auto simp: consistent_def edges_attached_def)
    with ne show "x < next_ref g' \<and> x \<in> set (out_list g' (source xd)) \<and>
        x \<in> set (in_list g' (destination xd))"
      by (auto simp: nx ol il)
  qed
  moreover have "out_symmetric g'"
    unfolding out_symmetric_def
  proof (intro allI impI)
    fix n x
    assume a: "x \<in> set (out_list g' n)"
    with out_not have "x \<noteq> e" by auto
    moreover from a assms(1) have "edge_source g x = Some n"
      using out_sub by (simp add: consistent_def out_symmetric_def)
    ultimately show "edge_source g' x = Some n" by (simp add: edge_source_def em)
  qed
  moreover have "in_symmetric g'"
    unfolding in_symmetric_def
  proof (intro allI impI)
    fix n x
    assume a: "x \<in> set (in_list g' n)"
    with in_not have "x \<noteq> e" by auto
    moreover from a assms(1) have "edge_destination g x = Some n"
      using in_sub by (simp add: consistent_def in_symmetric_def)
    ultimately show "edge_destination g' x = Some n" by (simp add: edge_destination_def em)
  qed
  moreover have "groups_consistent g'"
    using assms(1) remove_edge_views(3,4) [OF assms(2)]
    by (simp add: consistent_def groups_consistent_def)
  ultimately show ?thesis by (simp add: consistent_def)
qed

subsection \<open>groups\<close>

lemma members_iff:
  "consistent g \<Longrightarrow> n \<in> set (members_of g grp) \<longleftrightarrow> group_of g n = Some grp"
  by (simp add: consistent_def groups_consistent_def)

lemma leave_group_fields [simp]:
  "edges (leave_group n g) = edges g"
  "next_ref (leave_group n g) = next_ref g"
  "observer_store (leave_group n g) = observer_store g"
  "trace (leave_group n g) = trace g"
  "node_refs (leave_group n g) = node_refs g"
  by (simp_all add: leave_group_def node_refs_def keys_map_entry split: option.splits)

lemma leave_group_views [simp]:
  "out_list (leave_group n g) = out_list g"
  "in_list (leave_group n g) = in_list g"
  "observer_list (leave_group n g) = observer_list g"
  "observer_enabled (leave_group n g) = observer_enabled g"
  "group_of (leave_group n g) m = (if m = n then None else group_of g m)"
  "members_of (leave_group n g) grp =
     (if group_of g n = Some grp then removeAll n (members_of g grp) else members_of g grp)"
  by (auto simp: view_defs leave_group_def fun_eq_iff map_of_map_entry observer_enabled_def
      split: option.splits)

lemma consistent_leave_group:
  assumes "consistent g"
  shows "consistent (leave_group n g)"
proof -
  have "edges_attached (leave_group n g)" "out_symmetric (leave_group n g)"
    "in_symmetric (leave_group n g)"
    using assms
    by (simp_all add: consistent_def edges_attached_def out_symmetric_def in_symmetric_def
        edge_source_def edge_destination_def)
  moreover have "groups_consistent (leave_group n g)"
    using assms by (auto simp: consistent_def groups_consistent_def)
  ultimately show ?thesis by (simp add: consistent_def)
qed

lemma join_group_fields [simp]:
  "edges (join_group n grp g) = edges g"
  "next_ref (join_group n grp g) = next_ref g"
  "observer_store (join_group n grp g) = observer_store g"
  "trace (join_group n grp g) = trace g"
  "node_refs (join_group n grp g) = node_refs g"
  by (simp_all add: join_group_def node_refs_def keys_map_entry)

lemma join_group_views [simp]:
  "out_list (join_group n grp g) = out_list g"
  "in_list (join_group n grp g) = in_list g"
  "observer_list (join_group n grp g) = observer_list g"
  "observer_enabled (join_group n grp g) = observer_enabled g"
  "group_of (join_group n grp g) m =
     (if m = n \<and> n \<in> set (node_refs g) then Some grp else group_of g m)"
  "members_of (join_group n grp g) grp' =
     (if grp' = grp \<and> grp \<in> set (map fst (groups g)) then List.insert n (members_of g grp)
      else members_of g grp')"
  by (auto simp: view_defs join_group_def fun_eq_iff map_of_map_entry observer_enabled_def
      member_iff map_of_eq_None_iff [symmetric] split: option.splits)

lemma consistent_join_group:
  assumes "consistent g" and "n \<in> set (node_refs g)" and "grp \<in> set (map fst (groups g))"
    and "group_of g n = None"
  shows "consistent (join_group n grp g)"
proof -
  have "edges_attached (join_group n grp g)" "out_symmetric (join_group n grp g)"
    "in_symmetric (join_group n grp g)"
    using assms(1)
    by (simp_all add: consistent_def edges_attached_def out_symmetric_def in_symmetric_def
        edge_source_def edge_destination_def)
  moreover have "groups_consistent (join_group n grp g)"
    unfolding groups_consistent_def
  proof (intro allI)
    fix m grp'
    from assms(1) have gc: "group_of g m = Some grp' \<longleftrightarrow> m \<in> set (members_of g grp')"
      and gn: "n \<notin> set (members_of g grp')"
      using assms(4) by (simp_all add: members_iff)
    from assms(1) have gm: "group_of g m = Some grp \<longleftrightarrow> m \<in> set (members_of g grp)"
      by (simp add: members_iff)
    show "group_of (join_group n grp g) m = Some grp' \<longleftrightarrow>
        m \<in> set (members_of (join_group n grp g) grp')"
      using assms(2,3) gc gn gm by (auto simp del: set_map)
  qed
  ultimately show ?thesis by (simp add: consistent_def)
qed

lemma consistent_insert_node_into_group:
  assumes "consistent g" and "insert_node_into_group n grp g = Inr g'"
  shows "consistent g'"
proof -
  from assms(2) have mem: "n \<in> set (node_refs g)" "grp \<in> set (map fst (groups g))"
    and g': "g' = join_group n grp (leave_group n g)"
    by (auto simp: insert_node_into_group_def split: if_splits)
  have "groups (leave_group n g) = groups g \<or>
      (\<exists>x. groups (leave_group n g) = AList.map_entry x (removeAll n) (groups g))"
    by (auto simp: leave_group_def split: option.splits)
  then have "map fst (groups (leave_group n g)) = map fst (groups g)"
    by (auto simp: keys_map_entry)
  with mem show ?thesis
    unfolding g' by (intro consistent_join_group consistent_leave_group assms(1)) simp_all
qed

lemma consistent_remove_node_from_group:
  "consistent g \<Longrightarrow> remove_node_from_group n g = Inr g' \<Longrightarrow> consistent g'"
  by (auto simp: remove_node_from_group_def consistent_leave_group split: if_splits)

subsection \<open>remove_node\<close>

lemma destroy_node_fields [simp]:
  "edges (destroy_node n g) = edges g"
  "groups (destroy_node n g) = groups g"
  "next_ref (destroy_node n g) = next_ref g"
  "observer_store (destroy_node n g) = observer_store g"
  "trace (destroy_node n g) = trace g"
  "set (node_refs (destroy_node n g)) = set (node_refs g) - {n}"
  by (auto simp: destroy_node_def node_refs_def AList.delete_keys)

lemma destroy_node_views [simp]:
  "out_list (destroy_node n g) m = (if m = n then [] else out_list g m)"
  "in_list (destroy_node n g) m = (if m = n then [] else in_list g m)"
  "observer_list (destroy_node n g) m = (if m = n then [] else observer_list g m)"
  "group_of (destroy_node n g) m = (if m = n then None else group_of g m)"
  "members_of (destroy_node n g) = members_of g"
  "observer_enabled (destroy_node n g) = observer_enabled g"
  by (auto simp: view_defs destroy_node_def fun_eq_iff AList.delete_conv' observer_enabled_def)

lemma consistent_destroy_node:
  assumes "consistent g" and "out_list g n = []" and "in_list g n = []" and "group_of g n = None"
  shows "consistent (destroy_node n g)"
proof -
  have "edges_attached (destroy_node n g)"
    using assms(1-3) by (fastforce simp: consistent_def edges_attached_def)
  moreover have "out_symmetric (destroy_node n g)" "in_symmetric (destroy_node n g)"
    using assms(1)
    by (simp_all add: consistent_def out_symmetric_def in_symmetric_def
        edge_source_def edge_destination_def)
  moreover have "groups_consistent (destroy_node n g)"
    using assms(4) by (auto simp: groups_consistent_def members_iff [OF assms(1)])
  ultimately show ?thesis by (simp add: consistent_def)
qed

lemma remove_edge_out_set:
  assumes "consistent g" and "remove_edge e g = Inr g'"
  shows "set (out_list g' m) = set (out_list g m) - {e}"
    and "set (in_list g' m) = set (in_list g m) - {e}"
proof -
  from remove_edge_views(1) [OF assms(2)] obtain ed where
    ed: "map_of (edges g) e = Some ed"
    and ol: "\<And>m. out_list g' m = (if m = source ed then removeAll e (out_list g m) else out_list g m)"
    and il: "\<And>m. in_list g' m = (if m = destination ed then removeAll e (in_list g m) else in_list g m)"
    by blast
  have "e \<notin> set (out_list g m)" if "m \<noteq> source ed"
  proof
    assume "e \<in> set (out_list g m)"
    with assms(1) have "edge_source g e = Some m" by (simp add: consistent_def out_symmetric_def)
    with ed that show False by (simp add: edge_source_def)
  qed
  then show "set (out_list g' m) = set (out_list g m) - {e}"
    by (auto simp: ol)
  have "e \<notin> set (in_list g m)" if "m \<noteq> destination ed"
  proof
    assume "e \<in> set (in_list g m)"
    with assms(1) have "edge_destination g e = Some m"
      by (simp add: consistent_def in_symmetric_def)
    with ed that show False by (simp add: edge_destination_def)
  qed
  then show "set (in_list g' m) = set (in_list g m) - {e}"
    by (auto simp: il)
qed

lemma remove_edge_succeeds:
  "map_of (edges g) e \<noteq> None \<Longrightarrow> \<exists>g'. remove_edge e g = Inr g'"
  by (cases "map_of (edges g) e") (simp_all add: remove_edge_def Let_def)

lemma remove_edges_ok:
  assumes "consistent g" and "distinct es" and "\<forall>e \<in> set es. map_of (edges g) e \<noteq> None"
  shows "\<exists>g1. remove_edges es g = (None, g1) \<and> consistent g1 \<and>
      node_refs g1 = node_refs g \<and> group_of g1 = group_of g \<and> members_of g1 = members_of g \<and>
      groups g1 = groups g \<and> next_ref g1 = next_ref g \<and>
      observer_list g1 = observer_list g \<and> observer_store g1 = observer_store g \<and>
      (\<forall>m. set (out_list g1 m) = set (out_list g m) - set es) \<and>
      (\<forall>m. set (in_list g1 m) = set (in_list g m) - set es) \<and>
      (\<forall>x. map_of (edges g1) x = (if x \<in> set es then None else map_of (edges g) x))"
  using assms
proof (induction es arbitrary: g)
  case Nil
  then show ?case by simp
next
  case (Cons e es)
  from Cons.prems(3) obtain g' where g': "remove_edge e g = Inr g'"
    using remove_edge_succeeds [of g e] by auto
  have cg': "consistent g'" by (rule consistent_remove_edge [OF Cons.prems(1) g'])
  note v = remove_edge_views(2-) [OF g']
  note s = remove_edge_out_set [OF Cons.prems(1) g']
  from Cons.prems(2,3) have "\<forall>x \<in> set es. map_of (edges g') x \<noteq> None"
    by (auto simp: v(1))
  with Cons.IH [OF cg'] Cons.prems(2) obtain g1 where
    g1: "remove_edges es g' = (None, g1)" "consistent g1"
      "node_refs g1 = node_refs g'" "group_of g1 = group_of g'" "members_of g1 = members_of g'"
      "groups g1 = groups g'" "next_ref g1 = next_ref g'"
      "observer_list g1 = observer_list g'" "observer_store g1 = observer_store g'"
      "\<And>m. set (out_list g1 m) = set (out_list g' m) - set es"
      "\<And>m. set (in_list g1 m) = set (in_list g' m) - set es"
      "\<And>x. map_of (edges g1) x = (if x \<in> set es then None else map_of (edges g') x)"
    by auto
  have "remove_edges (e # es) g = (None, g1)" by (simp add: g' g1(1))
  moreover have "set (out_list g1 m) = set (out_list g m) - set (e # es)" for m
    by (auto simp: g1(10) s(1))
  moreover have "set (in_list g1 m) = set (in_list g m) - set (e # es)" for m
    by (auto simp: g1(11) s(2))
  moreover have "map_of (edges g1) x = (if x \<in> set (e # es) then None else map_of (edges g) x)" for x
    by (simp add: g1(12) v(1))
  ultimately show ?case
    using g1(2-9) v by simp
qed

lemma touching_props:
  "distinct (touching g n)"
  "set (touching g n) = set (in_list g n) \<union> set (out_list g n)"
  by (simp_all add: touching_def)

lemma touching_members:
  assumes "consistent g" and "e \<in> set (touching g n)"
  shows "map_of (edges g) e \<noteq> None"
proof -
  from assms(2) have "e \<in> set (in_list g n) \<or> e \<in> set (out_list g n)"
    by (simp add: touching_props)
  with assms(1) have "edge_destination g e = Some n \<or> edge_source g e = Some n"
    by (auto simp: consistent_def in_symmetric_def out_symmetric_def)
  then show ?thesis by (auto simp: edge_destination_def edge_source_def)
qed

lemma removal_step_consistent:
  assumes "consistent a" and "map_of (edges a) e \<noteq> None"
  shows "\<exists>b. removal_step a e b"
proof -
  from assms(2) obtain ed where ed: "map_of (edges a) e = Some ed" by auto
  define src where "src = source ed"
  define dst where "dst = destination ed"
  define g3 where "g3 = detach_edge e src dst
      (fan_out dst (In_node_removed dst src e) (fan_out src (Out_node_removed src dst e) a))"
  define b where "b = destroy_edge e
      (fan_out dst (In_node_removed1 dst) (fan_out src (Out_node_removed1 src) g3))"
  have ends: "edge_source a e = Some src" "edge_destination a e = Some dst"
    by (simp_all add: edge_source_def edge_destination_def ed src_def dst_def)
  from assms(1) ed have att: "e \<in> set (out_list a src)" "e \<in> set (in_list a dst)"
    by (auto simp: consistent_def edges_attached_def src_def dst_def)
  have res: "remove_edge e a = Inr b"
    using ed by (simp add: remove_edge_Inr b_def g3_def src_def dst_def)
  have nb: "nodes b = nodes g3" by (simp add: b_def)
  have det: "e \<notin> set (out_list b src)" "e \<notin> set (in_list b dst)"
    by (simp_all add: b_def g3_def)
  have gone: "e \<notin> set (edge_refs b)"
    by (simp add: edge_refs_iff b_def)
  have tr: "trace b = trace a @
      map (deliver (Out_node_removed src dst e) (nodes a)) (enabled_observers a src) @
      map (deliver (In_node_removed dst src e) (nodes a)) (enabled_observers a dst) @
      map (deliver (Out_node_removed1 src) (nodes b)) (enabled_observers a src) @
      map (deliver (In_node_removed1 dst) (nodes b)) (enabled_observers a dst)"
    unfolding nb by (simp add: b_def) (simp add: g3_def)
  from ends att res det gone tr have "removal_step a e b"
    unfolding removal_step_def by blast
  then show ?thesis ..
qed

lemma remove_edges_chain:
  assumes "consistent g" and "distinct es" and "\<forall>e \<in> set es. map_of (edges g) e \<noteq> None"
  shows "\<exists>gs. length gs = Suc (length es) \<and> gs ! 0 = g \<and>
      remove_edges es g = (None, gs ! length es) \<and>
      (\<forall>i<length es. node_refs (gs ! i) = node_refs g \<and>
         removal_step (gs ! i) (es ! i) (gs ! Suc i))"
  using assms
proof (induction es arbitrary: g)
  case Nil
  then show ?case by (intro exI [of _ "[g]"]) simp
next
  case (Cons e es)
  from removal_step_consistent [OF Cons.prems(1), of e] Cons.prems(3)
  obtain b where b: "removal_step g e b" by auto
  then have rb: "remove_edge e g = Inr b" by (auto simp: removal_step_def)
  have cb: "consistent b" by (rule consistent_remove_edge [OF Cons.prems(1) rb])
  note v = remove_edge_views(2-) [OF rb]
  from Cons.prems(2,3) have "\<forall>x \<in> set es. map_of (edges b) x \<noteq> None"
    by (auto simp: v(1))
  with Cons.IH [OF cb] Cons.prems(2) obtain gs where
    gs: "length gs = Suc (length es)" "gs ! 0 = b"
      "remove_edges es b = (None, gs ! length es)"
      "\<And>i. i < length es \<Longrightarrow> node_refs (gs ! i) = node_refs b \<and>
         removal_step (gs ! i) (es ! i) (gs ! Suc i)"
    by auto
  have "\<forall>i<length (e # es). node_refs ((g # gs) ! i) = node_refs g \<and>
      removal_step ((g # gs) ! i) ((e # es) ! i) ((g # gs) ! Suc i)"
  proof (intro allI impI)
    fix i
    assume "i < length (e # es)"
    then show "node_refs ((g # gs) ! i) = node_refs g \<and>
        removal_step ((g # gs) ! i) ((e # es) ! i) ((g # gs) ! Suc i)"
      using b gs(2) gs(4) v(4) by (cases i) simp_all
  qed
  moreover have "remove_edges (e # es) g = (None, (g # gs) ! length (e # es))"
    by (simp add: rb gs(3))
  ultimately show ?case
    using gs(1) by (intro exI [of _ "g # gs"]) simp
qed

lemma consistent_remove_edges: "consistent g \<Longrightarrow> consistent (snd (remove_edges es g))"
proof (induction es arbitrary: g)
  case Nil
  then show ?case by simp
next
  case (Cons e es)
  show ?case
  proof (cases "remove_edge e g")
    case (Inl err)
    with Cons.prems show ?thesis by simp
  next
    case (Inr g')
    with Cons.prems have "consistent g'" by (simp add: consistent_remove_edge)
    with Cons.IH Inr show ?thesis by simp
  qed
qed

lemma remove_node_fail:
  "n \<notin> set (node_refs g) \<Longrightarrow> remove_node n g = (Some NotFoundError, g)"
  by (simp add: remove_node_def)

lemma remove_node_ok:
  assumes "consistent g" and "n \<in> set (node_refs g)"
  shows "\<exists>g1. remove_edges (touching g n) g = (None, g1) \<and>
      remove_node n g = (None, destroy_node n (leave_group n g1)) \<and>
      consistent g1 \<and> consistent (destroy_node n (leave_group n g1)) \<and>
      node_refs g1 = node_refs g \<and> out_list g1 n = [] \<and> in_list g1 n = [] \<and>
      group_of g1 = group_of g \<and> members_of g1 = members_of g \<and>
      (\<forall>x. map_of (edges g1) x = (if x \<in> set (touching g n) then None else map_of (edges g) x))"
proof -
  from remove_edges_ok [OF assms(1) touching_props(1) [of g n]] touching_members [OF assms(1)]
  obtain g1 where
    g1: "remove_edges (touching g n) g = (None, g1)" "consistent g1"
      "node_refs g1 = node_refs g" "group_of g1 = group_of g" "members_of g1 = members_of g"
      "\<And>m. set (out_list g1 m) = set (out_list g m) - set (touching g n)"
      "\<And>m. set (in_list g1 m) = set (in_list g m) - set (touching g n)"
      "\<And>x. map_of (edges g1) x = (if x \<in> set (touching g n) then None else map_of (edges g) x)"
    by blast
  have "set (out_list g1 n) = {}" "set (in_list g1 n) = {}"
    using g1(6) [of n] g1(7) [of n] by (auto simp: touching_props)
  then have empty: "out_list g1 n = []" "in_list g1 n = []"
    by simp_all
  have "consistent (destroy_node n (leave_group n g1))"
    by (rule consistent_destroy_node) (simp_all add: consistent_leave_group g1(2) empty)
  moreover have "remove_node n g = (None, destroy_node n (leave_group n g1))"
    using assms(2) by (simp add: remove_node_def g1(1))
  ultimately show ?thesis using g1 empty by auto
qed

lemma consistent_remove_node:
  assumes "consistent g"
  shows "consistent (snd (remove_node n g))"
proof (cases "n \<in> set (node_refs g)")
  case True
  from remove_node_ok [OF assms True] show ?thesis by auto
next
  case False
  with assms show ?thesis by (simp add: remove_node_fail)
qed

subsection \<open>Sequences of operations\<close>

lemma consistent_outcome:
  assumes "consistent g" and "\<And>g'. r = Inr g' \<Longrightarrow> consistent g'"
  shows "consistent (snd (outcome g r))"
  using assms by (cases r) (simp_all add: outcome_def)

lemma consistent_apply_operation:
  assumes "consistent g"
  shows "consistent (snd (apply_operation op g))"
proof (cases op)
  case Insert_node
  with assms show ?thesis by (simp add: consistent_insert_node)
next
  case (Remove_node n)
  with assms show ?thesis by (simp add: consistent_remove_node)
next
  case (Insert_edge src dst)
  have "consistent g'" if "map_sum id snd (insert_edge src dst g) = Inr g'" for g'
  proof -
    from that obtain e where "insert_edge src dst g = Inr (e, g')"
      by (cases "insert_edge src dst g") auto
    with assms show ?thesis by (rule consistent_insert_edge)
  qed
  with assms Insert_edge show ?thesis by (simp add: consistent_outcome)
next
  case (Remove_edge e)
  with assms show ?thesis by (simp add: consistent_outcome consistent_remove_edge)
next
  case Insert_group
  with assms show ?thesis by (simp add: consistent_insert_group)
next
  case (Insert_node_into_group n grp)
  with assms show ?thesis by (simp add: consistent_outcome consistent_insert_node_into_group)
next
  case (Remove_node_from_group n)
  with assms show ?thesis by (simp add: consistent_outcome consistent_remove_node_from_group)
next
  case Create_observer
  with assms show ?thesis by (simp add: consistent_create_observer)
next
  case (Attach_observer n ob)
  with assms show ?thesis by (simp add: consistent_outcome consistent_attach_observer)
next
  case (Detach_observer n ob)
  with assms show ?thesis by (simp add: consistent_outcome consistent_detach_observer)
next
  case (Enable_observer ob)
  with assms show ?thesis by (simp add: consistent_outcome consistent_enable_observer)
next
  case (Disable_observer ob)
  with assms show ?thesis by (simp add: consistent_outcome consistent_disable_observer)
qed

lemma consistent_step: "consistent g \<Longrightarrow> consistent (step op g)"
  by (simp add: step_def consistent_apply_operation)

lemma consistent_run: "consistent g \<Longrightarrow> consistent (run ops g)"
  unfolding run_def by (induction ops arbitrary: g) (simp_all add: consistent_step)

lemma consistent_reachable: "consistent (run ops empty_graph)"
  by (simp add: consistent_run consistent_empty)

lemma consistent_adjacency_symmetry: "consistent g \<Longrightarrow> adjacency_symmetry g"
  by (simp add: adjacency_symmetry_def consistent_def out_symmetric_def in_symmetric_def
      list_all_iff)

lemma touching_covers:
  assumes "consistent g" and "edge_source g e = Some n \<or> edge_destination g e = Some n"
  shows "e \<in> set (touching g n)"
proof -
  from assms(2) obtain ed where ed: "map_of (edges g) e = Some ed"
    and "source ed = n \<or> destination ed = n"
    by (auto simp: edge_source_def edge_destination_def)
  moreover from assms(1) ed have "e \<in> set (out_list g (source ed))"
    "e \<in> set (in_list g (destination ed))"
    by (auto simp: consistent_def edges_attached_def)
  ultimately show ?thesis by (auto simp: touching_props)
qed

lemma touching_iff:
  assumes "consistent g"
  shows "e \<in> set (touching g n) \<longleftrightarrow> edge_source g e = Some n \<or> edge_destination g e = Some n"
proof
  assume "e \<in> set (touching g n)"
  then have "e \<in> set (in_list g n) \<or> e \<in> set (out_list g n)"
    by (simp add: touching_props)
  with assms show "edge_source g e = Some n \<or> edge_destination g e = Some n"
    by (auto simp: consistent_def in_symmetric_def out_symmetric_def)
next
  assume "edge_source g e = Some n \<or> edge_destination g e = Some n"
  with assms show "e \<in> set (touching g n)" by (rule touching_covers)
qed

subsection \<open>Enabling, disabling and attaching observers\<close>

lemma enable_observer_views:
  assumes "enable_observer ob g = Inr g'"
  shows "nodes g' = nodes g" and "trace g' = trace g" and "observer_list g' = observer_list g"
    and "observer_enabled g' x \<longleftrightarrow> x = ob \<or> observer_enabled g x"
proof -
  from assms have key: "map_of (observer_store g) ob \<noteq> None"
    and g': "g' = g\<lparr>observer_store := AList.map_entry ob enable (observer_store g)\<rparr>"
    by (auto simp: enable_observer_def map_of_eq_None_iff split: if_splits)
  show "nodes g' = nodes g" "trace g' = trace g" "observer_list g' = observer_list g"
    by (simp_all add: g' observer_list_def fun_eq_iff)
  from key show "observer_enabled g' x \<longleftrightarrow> x = ob \<or> observer_enabled g x"
    by (auto simp: g' observer_enabled_def map_of_map_entry isEnabled_def enable_def)
qed

lemma disable_observer_views:
  assumes "disable_observer ob g = Inr g'"
  shows "nodes g' = nodes g" and "trace g' = trace g" and "observer_list g' = observer_list g"
    and "observer_enabled g' x \<longleftrightarrow> x \<noteq> ob \<and> observer_enabled g x"
proof -
  from assms have key: "map_of (observer_store g) ob \<noteq> None"
    and g': "g' = g\<lparr>observer_store := AList.map_entry ob disable (observer_store g)\<rparr>"
    by (auto simp: disable_observer_def map_of_eq_None_iff split: if_splits)
  show "nodes g' = nodes g" "trace g' = trace g" "observer_list g' = observer_list g"
    by (simp_all add: g' observer_list_def fun_eq_iff)
  from key show "observer_enabled g' x \<longleftrightarrow> x \<noteq> ob \<and> observer_enabled g x"
    by (auto simp: g' observer_enabled_def map_of_map_entry isEnabled_def disable_def)
qed

lemma attach_observer_views:
  assumes "attach_observer n ob g = Inr g'"
  shows "observer_list g' n = observer_list g n @ [ob]"
    and "observer_enabled g' = observer_enabled g"
    and "trace g' = trace g"
proof -
  from assms have mem: "map_of (nodes g) n \<noteq> None"
    and g': "g' = g\<lparr>nodes := AList.map_entry n (\<lambda>nd. nd\<lparr>observers := observers nd @ [ob]\<rparr>) (nodes g),
               observer_store := AList.map_entry ob (set_target (Some n)) (observer_store g)\<rparr>"
    by (auto simp: attach_observer_def member_iff split: if_splits)
  from mem show "observer_list g' n = observer_list g n @ [ob]"
    by (auto simp: g' observer_list_def map_of_map_entry)
  show "observer_enabled g' = observer_enabled g"
    by (auto simp: g' observer_enabled_def map_of_map_entry fun_eq_iff isEnabled_def
        set_target_def split: option.splits)
  show "trace g' = trace g" by (simp add: g')
qed

section \<open>Properties of the graph container\<close>

text \<open>
  Claim C1. Adjacency symmetry holds in every container that a sequence of operations
  builds from the empty container: for every member node, each edge in its out-list has
  the node as source and each edge in its in-list has it as destination.
\<close>

theorem adjacency_symmetry_invariant: "adjacency_symmetry (run ops empty_graph)"
  by (rule consistent_adjacency_symmetry) (rule consistent_reachable)

theorem adjacency_symmetry_invariant_witness:
  "adjacency_symmetry example_graph \<and> out_list example_graph 0 = [4] \<and>
   edge_source example_graph 4 = Some 0 \<and> in_list example_graph 1 = [4] \<and>
   edge_destination example_graph 4 = Some 1"
proof -
  have "out_list example_graph 0 = [4]" "edge_source example_graph 4 = Some 0"
    "in_list example_graph 1 = [4]" "edge_destination example_graph 4 = Some 1"
    by code_simp+
  then show ?thesis
    using adjacency_symmetry_invariant [of example_ops] by (simp add: example_graph_def)
qed

text \<open>
  Claim C2. In every container built by a sequence of operations, \<^verbatim>\<open>insert_edge(src, dst)\<close>
  on two member nodes succeeds with a new edge from \<open>src\<close> to \<open>dst\<close>, appended to the
  out-list of \<open>src\<close> and the in-list of \<open>dst\<close>; the callbacks it fires are
  \<^verbatim>\<open>on_out_node_inserted(src, dst, edge)\<close> on the enabled observers of \<open>src\<close> and after
  them \<^verbatim>\<open>on_in_node_inserted(dst, src, edge)\<close> on those of \<open>dst\<close>, each seeing the node
  table with the edge already appended. If an endpoint is not a member, the result is
  \<^verbatim>\<open>InvalidEndpointError\<close>.
\<close>

theorem insert_edge_notifies_source_first:
  assumes "g = run ops empty_graph"
  shows "(src \<in> set (node_refs g) \<and> dst \<in> set (node_refs g) \<longrightarrow>
           (\<exists>e g'. insert_edge src dst g = Inr (e, g') \<and>
              e \<notin> set (edge_refs g) \<and>
              edge_source g' e = Some src \<and> edge_destination g' e = Some dst \<and>
              out_list g' src = out_list g src @ [e] \<and>
              in_list g' dst = in_list g dst @ [e] \<and>
              trace g' = trace g @
                map (deliver (Out_node_inserted src dst e) (nodes g')) (enabled_observers g src) @
                map (deliver (In_node_inserted dst src e) (nodes g')) (enabled_observers g dst))) \<and>
         (src \<notin> set (node_refs g) \<or> dst \<notin> set (node_refs g) \<longrightarrow>
            insert_edge src dst g = Inl InvalidEndpointError)"
proof (intro conjI impI)
  assume mem: "src \<in> set (node_refs g) \<and> dst \<in> set (node_refs g)"
  have cg: "consistent g" by (simp add: assms consistent_reachable)
  then have fresh: "map_of (edges g) (next_ref g) = None"
    by (simp add: consistent_def fresh_edge)
  define e where "e = next_ref g"
  define g2 where "g2 = add_in_edge e dst (add_out_edge e src (snd (create_edge src dst g)))"
  define g' where "g' = fan_out dst (In_node_inserted dst src e)
      (fan_out src (Out_node_inserted src dst e) g2)"
  have res: "insert_edge src dst g = Inr (e, g')"
    using mem by (simp add: insert_edge_Inr e_def g'_def g2_def)
  have em: "map_of (edges g') = (map_of (edges g))(e \<mapsto> \<lparr>source = src, destination = dst\<rparr>)"
    by (simp add: g'_def g2_def e_def create_edge_edges fresh)
  have "e \<notin> set (edge_refs g)"
    by (simp add: edge_refs_iff e_def fresh)
  moreover have "edge_source g' e = Some src" "edge_destination g' e = Some dst"
    by (simp_all add: edge_source_def edge_destination_def em)
  moreover have "out_list g' src = out_list g src @ [e]" "in_list g' dst = in_list g dst @ [e]"
    using mem by (simp_all add: g'_def g2_def)
  moreover have "nodes g' = nodes g2" by (simp add: g'_def)
  then have "trace g' = trace g @
      map (deliver (Out_node_inserted src dst e) (nodes g')) (enabled_observers g src) @
      map (deliver (In_node_inserted dst src e) (nodes g')) (enabled_observers g dst)"
    by (simp add: g'_def) (simp add: g2_def)
  ultimately show "\<exists>e g'. insert_edge src dst g = Inr (e, g') \<and>
      e \<notin> set (edge_refs g) \<and>
      edge_source g' e = Some src \<and> edge_destination g' e = Some dst \<and>
      out_list g' src = out_list g src @ [e] \<and>
      in_list g' dst = in_list g dst @ [e] \<and>
      trace g' = trace g @
        map (deliver (Out_node_inserted src dst e) (nodes g')) (enabled_observers g src) @
        map (deliver (In_node_inserted dst src e) (nodes g')) (enabled_observers g dst)"
    using res by blast
next
  assume "src \<notin> set (node_refs g) \<or> dst \<notin> set (node_refs g)"
  then show "insert_edge src dst g = Inl InvalidEndpointError"
    by (rule insert_edge_Inl)
qed

theorem insert_edge_notifies_source_first_witness:
  "0 \<in> set (node_refs example_base) \<and> 1 \<in> set (node_refs example_base) \<and>
   (\<exists>e g'. insert_edge 0 1 example_base = Inr (e, g') \<and>
      out_list g' 0 = [e] \<and> in_list g' 1 = [e] \<and>
      map receiver (trace g') = [2, 3] \<and>
      map (\<lambda>d. hook_of (notification d)) (trace g') =
        [On_out_node_inserted, On_in_node_inserted]) \<and>
   7 \<notin> set (node_refs example_base) \<and>
   insert_edge 0 7 example_base = Inl InvalidEndpointError"
proof -
  have mem: "0 \<in> set (node_refs example_base)" "1 \<in> set (node_refs example_base)"
    "7 \<notin> set (node_refs example_base)"
    by code_simp+
  have ev: "enabled_observers example_base 0 = [2]" "enabled_observers example_base 1 = [3]"
    "trace example_base = []" "out_list example_base 0 = []" "in_list example_base 1 = []"
    by code_simp+
  from insert_edge_notifies_source_first [of example_base example_nodes 0 1] mem
  have "\<exists>e g'. insert_edge 0 1 example_base = Inr (e, g') \<and>
      out_list g' 0 = [e] \<and> in_list g' 1 = [e] \<and>
      map receiver (trace g') = [2, 3] \<and>
      map (\<lambda>d. hook_of (notification d)) (trace g') =
        [On_out_node_inserted, On_in_node_inserted]"
    by (auto simp: example_base_def [symmetric] ev deliver_def simp del: One_nat_def)
  moreover from insert_edge_notifies_source_first [of example_base example_nodes 0 7] mem
  have "insert_edge 0 7 example_base = Inl InvalidEndpointError"
    by (simp add: example_base_def [symmetric])
  ultimately show ?thesis using mem by simp
qed

text \<open>
  Claim C3. In every container built by a sequence of operations, a member edge \<open>e\<close>
  from \<open>src\<close> to \<open>dst\<close> is in the out-list of \<open>src\<close> and the in-list of \<open>dst\<close>, and
  \<^verbatim>\<open>remove_edge(e)\<close> succeeds. It fires \<^verbatim>\<open>on_out_node_removed(src, dst, e)\<close> and then
  \<^verbatim>\<open>on_in_node_removed(dst, src, e)\<close> on the node table of before the call, where the edge
  is attached; then \<^verbatim>\<open>on_out_node_removed(src)\<close> and \<^verbatim>\<open>on_in_node_removed(dst)\<close> on the
  node table of after the call, where the edge is in neither list. An edge that is not a
  member gives \<^verbatim>\<open>NotFoundError\<close>.
\<close>

theorem remove_edge_notification_protocol:
  assumes "g = run ops empty_graph"
  shows "(edge_source g e = Some src \<and> edge_destination g e = Some dst \<longrightarrow>
           e \<in> set (out_list g src) \<and> e \<in> set (in_list g dst) \<and>
           (\<exists>g'. remove_edge e g = Inr g' \<and>
              e \<notin> set (out_list g' src) \<and> e \<notin> set (in_list g' dst) \<and>
              e \<notin> set (edge_refs g') \<and>
              trace g' = trace g @
                map (deliver (Out_node_removed src dst e) (nodes g)) (enabled_observers g src) @
                map (deliver (In_node_removed dst src e) (nodes g)) (enabled_observers g dst) @
                map (deliver (Out_node_removed1 src) (nodes g')) (enabled_observers g src) @
                map (deliver (In_node_removed1 dst) (nodes g')) (enabled_observers g dst))) \<and>
         (e \<notin> set (edge_refs g) \<longrightarrow> remove_edge e g = Inl NotFoundError)"
proof (intro conjI impI)
  assume "edge_source g e = Some src \<and> edge_destination g e = Some dst"
  then obtain ed where ed: "map_of (edges g) e = Some ed" "source ed = src" "destination ed = dst"
    by (auto simp: edge_source_def edge_destination_def)
  have cg: "consistent g" by (simp add: assms consistent_reachable)
  with ed show "e \<in> set (out_list g src)" "e \<in> set (in_list g dst)"
    by (auto simp: consistent_def edges_attached_def)
  define g3 where "g3 = detach_edge e src dst
      (fan_out dst (In_node_removed dst src e) (fan_out src (Out_node_removed src dst e) g))"
  define g' where "g' = destroy_edge e
      (fan_out dst (In_node_removed1 dst) (fan_out src (Out_node_removed1 src) g3))"
  have res: "remove_edge e g = Inr g'"
    using ed by (simp add: remove_edge_Inr g'_def g3_def)
  have ng: "nodes g' = nodes g3" by (simp add: g'_def)
  have "e \<notin> set (out_list g' src)" "e \<notin> set (in_list g' dst)"
    by (simp_all add: g'_def g3_def)
  moreover have "e \<notin> set (edge_refs g')"
    by (simp add: edge_refs_iff g'_def)
  moreover have "trace g' = trace g @
      map (deliver (Out_node_removed src dst e) (nodes g)) (enabled_observers g src) @
      map (deliver (In_node_removed dst src e) (nodes g)) (enabled_observers g dst) @
      map (deliver (Out_node_removed1 src) (nodes g')) (enabled_observers g src) @
      map (deliver (In_node_removed1 dst) (nodes g')) (enabled_observers g dst)"
    unfolding ng by (simp add: g'_def) (simp add: g3_def)
  ultimately show "\<exists>g'. remove_edge e g = Inr g' \<and>
      e \<notin> set (out_list g' src) \<and> e \<notin> set (in_list g' dst) \<and>
      e \<notin> set (edge_refs g') \<and>
      trace g' = trace g @
        map (deliver (Out_node_removed src dst e) (nodes g)) (enabled_observers g src) @
        map (deliver (In_node_removed dst src e) (nodes g)) (enabled_observers g dst) @
        map (deliver (Out_node_removed1 src) (nodes g')) (enabled_observers g src) @
        map (deliver (In_node_removed1 dst) (nodes g')) (enabled_observers g dst)"
    using res by blast
next
  assume "e \<notin> set (edge_refs g)"
  then show "remove_edge e g = Inl NotFoundError"
    by (simp add: edge_refs_iff remove_edge_Inl)
qed

theorem remove_edge_notification_protocol_witness:
  "edge_source example_graph 4 = Some 0 \<and> edge_destination example_graph 4 = Some 1 \<and>
   4 \<in> set (out_list example_graph 0) \<and> 4 \<in> set (in_list example_graph 1) \<and>
   (\<exists>g'. remove_edge 4 example_graph = Inr g' \<and>
      4 \<notin> set (out_list g' 0) \<and> 4 \<notin> set (in_list g' 1) \<and>
      map (\<lambda>d. (receiver d, notification d)) (drop (length (trace example_graph)) (trace g')) =
        [(2, Out_node_removed 0 1 4), (3, In_node_removed 1 0 4),
         (2, Out_node_removed1 0), (3, In_node_removed1 1)]) \<and>
   9 \<notin> set (edge_refs example_graph) \<and>
   remove_edge 9 example_graph = Inl NotFoundError"
proof -
  have ev: "edge_source example_graph 4 = Some 0" "edge_destination example_graph 4 = Some 1"
    "9 \<notin> set (edge_refs example_graph)"
    "enabled_observers example_graph 0 = [2]" "enabled_observers example_graph 1 = [3]"
    by code_simp+
  from remove_edge_notification_protocol [of example_graph example_ops 4 0 1] ev
  have "4 \<in> set (out_list example_graph 0) \<and> 4 \<in> set (in_list example_graph 1) \<and>
   (\<exists>g'. remove_edge 4 example_graph = Inr g' \<and>
      4 \<notin> set (out_list g' 0) \<and> 4 \<notin> set (in_list g' 1) \<and>
      map (\<lambda>d. (receiver d, notification d)) (drop (length (trace example_graph)) (trace g')) =
        [(2, Out_node_removed 0 1 4), (3, In_node_removed 1 0 4),
         (2, Out_node_removed1 0), (3, In_node_removed1 1)])"
    by (auto simp: example_graph_def [symmetric] deliver_def simp del: One_nat_def)
  moreover from remove_edge_notification_protocol [of example_graph example_ops 9] ev
  have "remove_edge 9 example_graph = Inl NotFoundError"
    by (simp add: example_graph_def [symmetric])
  ultimately show ?thesis using ev by simp
qed


text \<open>
  Claim C4. In every container built by a sequence of operations, \<^verbatim>\<open>remove_node(n)\<close> on a
  reference that is not a member gives \<^verbatim>\<open>NotFoundError\<close> and returns the container as it
  was. On a member node, the edges touching \<open>n\<close> are exactly the member edges with \<open>n\<close>
  as source or destination, each listed once. The cascade goes through them in order, from
  the container \<open>gs ! i\<close> to \<open>gs ! Suc i\<close>, and every step is a successful
  \<^verbatim>\<open>remove_edge\<close> with the full notification protocol: the edge is attached on both sides
  before, the two edge-context callbacks fire on the node table of before the step, the
  two no-context callbacks on the node table of after it, where the edge is detached and
  no member; \<open>n\<close> is a member throughout. After the cascade none of these edges is in
  the container; then \<open>n\<close> leaves its group, still a member; only then is it destroyed,
  with no further callback; and \<^verbatim>\<open>remove_edge\<close> on any of the removed edges then gives
  \<^verbatim>\<open>NotFoundError\<close>.
\<close>

theorem remove_node_cascade:
  assumes "g = run ops empty_graph"
  shows "(n \<notin> set (node_refs g) \<longrightarrow> remove_node n g = (Some NotFoundError, g)) \<and>
         (n \<in> set (node_refs g) \<longrightarrow>
           distinct (touching g n) \<and>
           (\<forall>e. e \<in> set (touching g n) \<longleftrightarrow>
                edge_source g e = Some n \<or> edge_destination g e = Some n) \<and>
           (\<exists>gs g1.
              length gs = Suc (length (touching g n)) \<and> gs ! 0 = g \<and>
              gs ! length (touching g n) = g1 \<and>
              (\<forall>i<length (touching g n).
                 n \<in> set (node_refs (gs ! i)) \<and>
                 (\<exists>src dst.
                    edge_source (gs ! i) (touching g n ! i) = Some src \<and>
                    edge_destination (gs ! i) (touching g n ! i) = Some dst \<and>
                    touching g n ! i \<in> set (out_list (gs ! i) src) \<and>
                    touching g n ! i \<in> set (in_list (gs ! i) dst) \<and>
                    remove_edge (touching g n ! i) (gs ! i) = Inr (gs ! Suc i) \<and>
                    touching g n ! i \<notin> set (out_list (gs ! Suc i) src) \<and>
                    touching g n ! i \<notin> set (in_list (gs ! Suc i) dst) \<and>
                    touching g n ! i \<notin> set (edge_refs (gs ! Suc i)) \<and>
                    trace (gs ! Suc i) = trace (gs ! i) @
                      map (deliver (Out_node_removed src dst (touching g n ! i)) (nodes (gs ! i)))
                        (enabled_observers (gs ! i) src) @
                      map (deliver (In_node_removed dst src (touching g n ! i)) (nodes (gs ! i)))
                        (enabled_observers (gs ! i) dst) @
                      map (deliver (Out_node_removed1 src) (nodes (gs ! Suc i)))
                        (enabled_observers (gs ! i) src) @
                      map (deliver (In_node_removed1 dst) (nodes (gs ! Suc i)))
                        (enabled_observers (gs ! i) dst))) \<and>
              remove_edges (touching g n) g = (None, g1) \<and>
              n \<in> set (node_refs g1) \<and>
              set (edge_refs g1) = set (edge_refs g) - set (touching g n) \<and>
              n \<in> set (node_refs (leave_group n g1)) \<and>
              (\<forall>grp. n \<notin> set (members_of (leave_group n g1) grp)) \<and>
              remove_node n g = (None, destroy_node n (leave_group n g1)) \<and>
              n \<notin> set (node_refs (destroy_node n (leave_group n g1))) \<and>
              trace (destroy_node n (leave_group n g1)) = trace g1 \<and>
              (\<forall>e \<in> set (touching g n).
                 remove_edge e (destroy_node n (leave_group n g1)) = Inl NotFoundError)))"
proof (intro conjI impI)
  assume "n \<notin> set (node_refs g)"
  then show "remove_node n g = (Some NotFoundError, g)"
    by (rule remove_node_fail)
next
  show "distinct (touching g n)" by (rule touching_props)
next
  have cg: "consistent g" by (simp add: assms consistent_reachable)
  show "\<forall>e. e \<in> set (touching g n) \<longleftrightarrow>
      edge_source g e = Some n \<or> edge_destination g e = Some n"
    using touching_iff [OF cg] by blast
  assume mem: "n \<in> set (node_refs g)"
  from remove_edges_chain [OF cg touching_props(1) [of g n]] touching_members [OF cg]
  obtain gs where
    gs: "length gs = Suc (length (touching g n))" "gs ! 0 = g"
      "remove_edges (touching g n) g = (None, gs ! length (touching g n))"
      "\<And>i. i < length (touching g n) \<Longrightarrow> node_refs (gs ! i) = node_refs g \<and>
         removal_step (gs ! i) (touching g n ! i) (gs ! Suc i)"
    by blast
  define g1 where "g1 = gs ! length (touching g n)"
  have g1_eq: "gs ! length (touching g n) = g1" by (simp add: g1_def)
  from remove_node_ok [OF cg mem] gs(3) have
    g1: "remove_edges (touching g n) g = (None, g1)"
      "remove_node n g = (None, destroy_node n (leave_group n g1))"
      "consistent g1" "node_refs g1 = node_refs g"
      "\<And>x. map_of (edges g1) x = (if x \<in> set (touching g n) then None else map_of (edges g) x)"
    by (auto simp: g1_def)
  have chain: "\<forall>i<length (touching g n).
      n \<in> set (node_refs (gs ! i)) \<and>
      (\<exists>src dst.
         edge_source (gs ! i) (touching g n ! i) = Some src \<and>
         edge_destination (gs ! i) (touching g n ! i) = Some dst \<and>
         touching g n ! i \<in> set (out_list (gs ! i) src) \<and>
         touching g n ! i \<in> set (in_list (gs ! i) dst) \<and>
         remove_edge (touching g n ! i) (gs ! i) = Inr (gs ! Suc i) \<and>
         touching g n ! i \<notin> set (out_list (gs ! Suc i) src) \<and>
         touching g n ! i \<notin> set (in_list (gs ! Suc i) dst) \<and>
         touching g n ! i \<notin> set (edge_refs (gs ! Suc i)) \<and>
         trace (gs ! Suc i) = trace (gs ! i) @
           map (deliver (Out_node_removed src dst (touching g n ! i)) (nodes (gs ! i)))
             (enabled_observers (gs ! i) src) @
           map (deliver (In_node_removed dst src (touching g n ! i)) (nodes (gs ! i)))
             (enabled_observers (gs ! i) dst) @
           map (deliver (Out_node_removed1 src) (nodes (gs ! Suc i)))
             (enabled_observers (gs ! i) src) @
           map (deliver (In_node_removed1 dst) (nodes (gs ! Suc i)))
             (enabled_observers (gs ! i) dst))"
    using gs(4) mem unfolding removal_step_def by simp
  have "set (edge_refs g1) = set (edge_refs g) - set (touching g n)"
    by (auto simp: edge_refs_iff g1(5) simp del: not_None_eq split: if_splits)
  moreover have "n \<notin> set (members_of (leave_group n g1) grp)" for grp
    using members_iff [OF consistent_leave_group [OF g1(3)], of n n grp] by simp
  moreover have "remove_edge e (destroy_node n (leave_group n g1)) = Inl NotFoundError"
    if "e \<in> set (touching g n)" for e
    using that by (intro remove_edge_Inl) (simp add: g1(5))
  ultimately have rest: "remove_edges (touching g n) g = (None, g1) \<and>
      n \<in> set (node_refs g1) \<and>
      set (edge_refs g1) = set (edge_refs g) - set (touching g n) \<and>
      n \<in> set (node_refs (leave_group n g1)) \<and>
      (\<forall>grp. n \<notin> set (members_of (leave_group n g1) grp)) \<and>
      remove_node n g = (None, destroy_node n (leave_group n g1)) \<and>
      n \<notin> set (node_refs (destroy_node n (leave_group n g1))) \<and>
      trace (destroy_node n (leave_group n g1)) = trace g1 \<and>
      (\<forall>e \<in> set (touching g n).
         remove_edge e (destroy_node n (leave_group n g1)) = Inl NotFoundError)"
    using g1(1,2,4) mem by simp
  show "\<exists>gs g1.
      length gs = Suc (length (touching g n)) \<and> gs ! 0 = g \<and>
      gs ! length (touching g n) = g1 \<and>
      (\<forall>i<length (touching g n).
         n \<in> set (node_refs (gs ! i)) \<and>
         (\<exists>src dst.
            edge_source (gs ! i) (touching g n ! i) = Some src \<and>
            edge_destination (gs ! i) (touching g n ! i) = Some dst \<and>
            touching g n ! i \<in> set (out_list (gs ! i) src) \<and>
            touching g n ! i \<in> set (in_list (gs ! i) dst) \<and>
            remove_edge (touching g n ! i) (gs ! i) = Inr (gs ! Suc i) \<and>
            touching g n ! i \<notin> set (out_list (gs ! Suc i) src) \<and>
            touching g n ! i \<notin> set (in_list (gs ! Suc i) dst) \<and>
            touching g n ! i \<notin> set (edge_refs (gs ! Suc i)) \<and>
            trace (gs ! Suc i) = trace (gs ! i) @
              map (deliver (Out_node_removed src dst (touching g n ! i)) (nodes (gs ! i)))
                (enabled_observers (gs ! i) src) @
              map (deliver (In_node_removed dst src (touching g n ! i)) (nodes (gs ! i)))
                (enabled_observers (gs ! i) dst) @
              map (deliver (Out_node_removed1 src) (nodes (gs ! Suc i)))
                (enabled_observers (gs ! i) src) @
              map (deliver (In_node_removed1 dst) (nodes (gs ! Suc i)))
                (enabled_observers (gs ! i) dst))) \<and>
      remove_edges (touching g n) g = (None, g1) \<and>
      n \<in> set (node_refs g1) \<and>
      set (edge_refs g1) = set (edge_refs g) - set (touching g n) \<and>
      n \<in> set (node_refs (leave_group n g1)) \<and>
      (\<forall>grp. n \<notin> set (members_of (leave_group n g1) grp)) \<and>
      remove_node n g = (None, destroy_node n (leave_group n g1)) \<and>
      n \<notin> set (node_refs (destroy_node n (leave_group n g1))) \<and>
      trace (destroy_node n (leave_group n g1)) = trace g1 \<and>
      (\<forall>e \<in> set (touching g n).
         remove_edge e (destroy_node n (leave_group n g1)) = Inl NotFoundError)"
    apply (rule exI [of _ gs], rule exI [of _ g1])
    apply (rule conjI [OF gs(1) conjI [OF gs(2) conjI [OF g1_eq conjI [OF chain rest]]]])
    done
qed

theorem remove_node_cascade_witness:
  "0 \<in> set (node_refs example_hub) \<and> touching example_hub 0 = [5, 4, 6] \<and>
   members_of example_hub 7 = [0] \<and>
   (\<exists>g'. remove_node 0 example_hub = (None, g') \<and>
      0 \<notin> set (node_refs g') \<and> members_of g' 7 = [] \<and> edge_refs g' = [] \<and>
      map (\<lambda>d. (receiver d, notification d)) (drop (length (trace example_hub)) (trace g')) =
        [(3, Out_node_removed 1 0 5), (2, In_node_removed 0 1 5),
         (3, Out_node_removed1 1), (2, In_node_removed1 0),
         (2, Out_node_removed 0 1 4), (3, In_node_removed 1 0 4),
         (2, Out_node_removed1 0), (3, In_node_removed1 1),
         (2, Out_node_removed 0 0 6), (2, In_node_removed 0 0 6),
         (2, Out_node_removed1 0), (2, In_node_removed1 0)] \<and>
      remove_edge 4 g' = Inl NotFoundError \<and> remove_edge 5 g' = Inl NotFoundError \<and>
      remove_edge 6 g' = Inl NotFoundError) \<and>
   9 \<notin> set (node_refs example_hub) \<and>
   remove_node 9 example_hub = (Some NotFoundError, example_hub)"
proof -
  have ev: "0 \<in> set (node_refs example_hub)" "touching example_hub 0 = [5, 4, 6]"
    "members_of example_hub 7 = [0]" "9 \<notin> set (node_refs example_hub)"
    by code_simp+
  have run: "map_prod id
      (\<lambda>g'. (members_of g' 7, edge_refs g',
         map (\<lambda>d. (receiver d, notification d)) (drop (length (trace example_hub)) (trace g'))))
      (remove_node 0 example_hub) =
    (None, [], [], [(3, Out_node_removed 1 0 5), (2, In_node_removed 0 1 5),
         (3, Out_node_removed1 1), (2, In_node_removed1 0),
         (2, Out_node_removed 0 1 4), (3, In_node_removed 1 0 4),
         (2, Out_node_removed1 0), (3, In_node_removed1 1),
         (2, Out_node_removed 0 0 6), (2, In_node_removed 0 0 6),
         (2, Out_node_removed1 0), (2, In_node_removed1 0)])"
    by code_simp
  from remove_node_cascade [of example_hub example_hub_ops 0] ev
  obtain g1 where g1: "remove_node 0 example_hub = (None, destroy_node 0 (leave_group 0 g1))"
    "0 \<notin> set (node_refs (destroy_node 0 (leave_group 0 g1)))"
    "\<forall>e \<in> set [5, 4, 6]. remove_edge e (destroy_node 0 (leave_group 0 g1)) = Inl NotFoundError"
    unfolding example_hub_def [symmetric] by auto
  from run g1 have "\<exists>g'. remove_node 0 example_hub = (None, g') \<and>
      0 \<notin> set (node_refs g') \<and> members_of g' 7 = [] \<and> edge_refs g' = [] \<and>
      map (\<lambda>d. (receiver d, notification d)) (drop (length (trace example_hub)) (trace g')) =
        [(3, Out_node_removed 1 0 5), (2, In_node_removed 0 1 5),
         (3, Out_node_removed1 1), (2, In_node_removed1 0),
         (2, Out_node_removed 0 1 4), (3, In_node_removed 1 0 4),
         (2, Out_node_removed1 0), (3, In_node_removed1 1),
         (2, Out_node_removed 0 0 6), (2, In_node_removed 0 0 6),
         (2, Out_node_removed1 0), (2, In_node_removed1 0)] \<and>
      remove_edge 4 g' = Inl NotFoundError \<and> remove_edge 5 g' = Inl NotFoundError \<and>
      remove_edge 6 g' = Inl NotFoundError"
    by (intro exI [of _ "destroy_node 0 (leave_group 0 g1)"]) (simp del: One_nat_def)
  moreover from remove_node_cascade [of example_hub example_hub_ops 9] ev
  have "remove_node 9 example_hub = (Some NotFoundError, example_hub)"
    by (simp add: example_hub_def [symmetric])
  ultimately show ?thesis using ev by simp
qed

text \<open>
  Claim C5. For every node and every notification, the fan-out calls exactly the attached
  observers that are enabled, in the order of the node's observer list, to which attaching
  appends. After an observer is disabled, a fan-out does not call it; enabling it again
  fires nothing, so no missed notification is replayed, and the next fan-out calls it
  among the enabled observers.
\<close>

theorem fan_out_enabled_in_attachment_order:
  "trace (fan_out n c g) =
     trace g @ map (deliver c (nodes g)) (filter (observer_enabled g) (observer_list g n)) \<and>
   (attach_observer n ob g = Inr ga \<longrightarrow> observer_list ga n = observer_list g n @ [ob]) \<and>
   (disable_observer ob g = Inr gd \<longrightarrow>
      trace gd = trace g \<and>
      trace (fan_out n c gd) =
        trace g @ map (deliver c (nodes g))
          (filter (\<lambda>x. x \<noteq> ob \<and> observer_enabled g x) (observer_list g n)) \<and>
      (enable_observer ob (fan_out n c gd) = Inr ge \<longrightarrow>
         trace ge = trace (fan_out n c gd) \<and>
         trace (fan_out n c' ge) =
           trace ge @ map (deliver c' (nodes g))
             (filter (\<lambda>x. x = ob \<or> observer_enabled g x) (observer_list g n))))"
proof (intro conjI impI)
  show "trace (fan_out n c g) =
     trace g @ map (deliver c (nodes g)) (filter (observer_enabled g) (observer_list g n))"
    by (simp add: enabled_observers_def)
next
  assume "attach_observer n ob g = Inr ga"
  then show "observer_list ga n = observer_list g n @ [ob]"
    by (rule attach_observer_views)
next
  assume d: "disable_observer ob g = Inr gd"
  note dv = disable_observer_views [OF d]
  show "trace gd = trace g" by (rule dv(2))
  have den: "observer_enabled gd = (\<lambda>x. x \<noteq> ob \<and> observer_enabled g x)"
    by (simp add: fun_eq_iff dv(4))
  show fd: "trace (fan_out n c gd) =
      trace g @ map (deliver c (nodes g))
        (filter (\<lambda>x. x \<noteq> ob \<and> observer_enabled g x) (observer_list g n))"
    by (simp add: enabled_observers_def dv(1-3) den)
  assume e: "enable_observer ob (fan_out n c gd) = Inr ge"
  note ev = enable_observer_views [OF e]
  show "trace ge = trace (fan_out n c gd)" by (rule ev(2))
  have een: "observer_enabled ge = (\<lambda>x. x = ob \<or> observer_enabled g x)"
    by (auto simp: fun_eq_iff ev(4) dv(4))
  show "trace (fan_out n c' ge) =
      trace ge @ map (deliver c' (nodes g))
        (filter (\<lambda>x. x = ob \<or> observer_enabled g x) (observer_list g n))"
    by (simp add: enabled_observers_def ev(1,3) dv(1,3) een)
qed

theorem fan_out_enabled_in_attachment_order_witness:
  "observer_list example_observed 0 = [1, 2] \<and>
   (\<exists>gd. disable_observer 1 example_observed = Inr gd \<and>
      map receiver (trace (fan_out 0 (Out_node_removed1 0) gd)) = [2] \<and>
      (\<exists>ge. enable_observer 1 (fan_out 0 (Out_node_removed1 0) gd) = Inr ge \<and>
         map (\<lambda>d. (receiver d, notification d)) (trace (fan_out 0 (In_node_removed1 0) ge)) =
           [(2, Out_node_removed1 0), (1, In_node_removed1 0), (2, In_node_removed1 0)]))"
proof -
  have ev: "observer_list example_observed 0 = [1, 2]" "trace example_observed = []"
    "observer_enabled example_observed 1" "observer_enabled example_observed 2"
    "1 \<in> set (map fst (observer_store example_observed))"
    by code_simp+
  define gd where
    "gd = example_observed\<lparr>observer_store :=
       AList.map_entry 1 disable (observer_store example_observed)\<rparr>"
  define ge where
    "ge = (fan_out 0 (Out_node_removed1 0) gd)\<lparr>observer_store :=
       AList.map_entry 1 enable (observer_store (fan_out 0 (Out_node_removed1 0) gd))\<rparr>"
  have d: "disable_observer 1 example_observed = Inr gd"
    using ev(5) by (simp add: disable_observer_def gd_def del: One_nat_def set_map)
  have "1 \<in> set (map fst (observer_store (fan_out 0 (Out_node_removed1 0) gd)))"
    using ev(5) by (simp add: gd_def keys_map_entry del: One_nat_def set_map)
  then have e: "enable_observer 1 (fan_out 0 (Out_node_removed1 0) gd) = Inr ge"
    by (simp add: enable_observer_def ge_def del: One_nat_def set_map)
  from fan_out_enabled_in_attachment_order
    [of 0 "Out_node_removed1 0" example_observed 1 example_observed gd ge "In_node_removed1 0"] d e
  have r1: "map receiver (trace (fan_out 0 (Out_node_removed1 0) gd)) = [2]"
    and r2: "map (\<lambda>d. (receiver d, notification d)) (trace (fan_out 0 (In_node_removed1 0) ge)) =
           [(2, Out_node_removed1 0), (1, In_node_removed1 0), (2, In_node_removed1 0)]"
    by (simp_all add: ev deliver_def del: One_nat_def fan_out_fields)
  show ?thesis
    apply (intro conjI)
     apply (rule ev(1))
    apply (rule exI [of _ gd], intro conjI, rule d, rule r1)
    apply (rule exI [of _ ge], intro conjI, rule e, rule r2)
    done
qed

end
